theory Spec2Isabelle
  imports Complex_Main
begin

section \<open>Values of the language\<close>

text \<open>
  The helpers of \<^verbatim>\<open>meteor-app/imports/helpers/model.js\<close> work on JavaScript values.
  A Number is a finite number, NaN or one of the two infinities; finite numbers are
  modelled as reals (the negative zero is not distinguished from zero).
\<close>

datatype jsnum = Finite real | NaN | PosInf | NegInf

datatype jsval =
    JUndefined
  | JNull
  | JBool bool
  | JNum jsnum
  | JStr string
  | JObj "(string \<times> jsval) list"
  | JArr "jsval list"

text \<open>\<^verbatim>\<open>typeof value === 'number'\<close> and the global \<^verbatim>\<open>isNaN\<close> on a Number.\<close>

fun typeof_number :: "jsval \<Rightarrow> bool" where
  "typeof_number (JNum n) = True"
| "typeof_number v = False"

fun isNaN_num :: "jsnum \<Rightarrow> bool" where
  "isNaN_num NaN = True"
| "isNaN_num n = False"

text \<open>
  \<^verbatim>\<open>getNumber(value, defaultValue)\<close>: the value when it is of type number and not NaN,
  the default otherwise.
\<close>

fun getNumber :: "jsval \<Rightarrow> jsval \<Rightarrow> jsval" where
  "getNumber (JNum n) defaultValue = (if \<not> isNaN_num n then JNum n else defaultValue)"
| "getNumber v defaultValue = defaultValue"

text \<open>The property the specification words as "a finite number".\<close>

fun is_finite_number :: "jsval \<Rightarrow> bool" where
  "is_finite_number (JNum (Finite x)) = True"
| "is_finite_number v = False"


section \<open>Resolution names\<close>

text \<open>
  \<^verbatim>\<open>ResolutionToPrecisionMapping\<close> is an object literal; its own properties in source
  order. \<^verbatim>\<open>getPrecisionByResolution\<close> reads the property named by its argument, which is
  \<^verbatim>\<open>undefined\<close> (here \<open>None\<close>) for a name that is not a key.
\<close>

definition ResolutionToPrecisionMapping :: "(string \<times> int) list" where
  "ResolutionToPrecisionMapping =
     [(''year'', 0), (''month'', 1), (''date'', 2), (''day'', 2), (''hour'', 3),
      (''minute'', 4), (''second'', 5), (''millisecond'', 5)]"

definition AllResolutionNames :: "string list" where
  "AllResolutionNames = map fst ResolutionToPrecisionMapping"

definition getPrecisionByResolution :: "string \<Rightarrow> int option" where
  "getPrecisionByResolution resolution = map_of ResolutionToPrecisionMapping resolution"


section \<open>Time values and the calendar of the Date built-in\<close>

text \<open>
  A Date object holds a time value: an integral number of milliseconds since
  1970-01-01T00:00:00Z of magnitude at most 8.64e15, or NaN (an invalid date), here
  \<open>None\<close>. The functions of this section are the abstract operations of the language
  specification on mathematical integers: Day, TimeWithinDay, DaysInYear, DayFromYear,
  YearFromTime, MonthFromTime, DateFromTime and the fields of the time of day, which the
  language applies to time values only, and MakeTime, MakeDay, MakeDate and TimeClip in
  exact arithmetic. The setters compute MakeTime, MakeDay and MakeDate in the arithmetic
  of Numbers, which rounds; those are given in the next section, and the exact ones serve
  to state what the setters yield.
\<close>

type_synonym timevalue = "int option"

definition msPerDay :: int where "msPerDay = 86400000"
definition msPerHour :: int where "msPerHour = 3600000"
definition msPerMinute :: int where "msPerMinute = 60000"
definition msPerSecond :: int where "msPerSecond = 1000"

definition maxTime :: int where "maxTime = 8640000000000000"

definition Day :: "int \<Rightarrow> int" where
  "Day t = t div msPerDay"

definition TimeWithinDay :: "int \<Rightarrow> int" where
  "TimeWithinDay t = t mod msPerDay"

definition DaysInYear :: "int \<Rightarrow> int" where
  "DaysInYear y =
     (if y mod 4 \<noteq> 0 then 365
      else if y mod 100 \<noteq> 0 then 366
      else if y mod 400 \<noteq> 0 then 365
      else 366)"

definition DayFromYear :: "int \<Rightarrow> int" where
  "DayFromYear y =
     365 * (y - 1970) + (y - 1969) div 4 - (y - 1901) div 100 + (y - 1601) div 400"

definition TimeFromYear :: "int \<Rightarrow> int" where
  "TimeFromYear y = msPerDay * DayFromYear y"

text \<open>
  YearFromTime is specified as the largest year whose first instant is not after \<open>t\<close>.
  It is computed from an estimate by the mean length of a year (146097 days in 400
  years), which is off by at most one.
\<close>

definition YearFromTime :: "int \<Rightarrow> int" where
  "YearFromTime t =
     (let d = Day t; y = 1970 + (400 * d) div 146097
      in if d < DayFromYear y then y - 1
         else if DayFromYear (y + 1) \<le> d then y + 1
         else y)"

definition InLeapYear :: "int \<Rightarrow> int" where
  "InLeapYear t = (if DaysInYear (YearFromTime t) = 366 then 1 else 0)"

definition DayWithinYear :: "int \<Rightarrow> int" where
  "DayWithinYear t = Day t - DayFromYear (YearFromTime t)"

definition MonthFromTime :: "int \<Rightarrow> int" where
  "MonthFromTime t =
     (let d = DayWithinYear t; l = InLeapYear t
      in if d < 31 then 0
         else if d < 59 + l then 1
         else if d < 90 + l then 2
         else if d < 120 + l then 3
         else if d < 151 + l then 4
         else if d < 181 + l then 5
         else if d < 212 + l then 6
         else if d < 243 + l then 7
         else if d < 273 + l then 8
         else if d < 304 + l then 9
         else if d < 334 + l then 10
         else 11)"

definition DateFromTime :: "int \<Rightarrow> int" where
  "DateFromTime t =
     (let d = DayWithinYear t; l = InLeapYear t; m = MonthFromTime t
      in if m = 0 then d + 1
         else if m = 1 then d - 30
         else if m = 2 then d - 58 - l
         else if m = 3 then d - 89 - l
         else if m = 4 then d - 119 - l
         else if m = 5 then d - 150 - l
         else if m = 6 then d - 180 - l
         else if m = 7 then d - 211 - l
         else if m = 8 then d - 242 - l
         else if m = 9 then d - 272 - l
         else if m = 10 then d - 303 - l
         else d - 333 - l)"

definition HourFromTime :: "int \<Rightarrow> int" where
  "HourFromTime t = (t div msPerHour) mod 24"

definition MinFromTime :: "int \<Rightarrow> int" where
  "MinFromTime t = (t div msPerMinute) mod 60"

definition SecFromTime :: "int \<Rightarrow> int" where
  "SecFromTime t = (t div msPerSecond) mod 60"

definition msFromTime :: "int \<Rightarrow> int" where
  "msFromTime t = t mod msPerSecond"

definition MakeTime :: "int \<Rightarrow> int \<Rightarrow> int \<Rightarrow> int \<Rightarrow> int" where
  "MakeTime hour m sec ms = hour * msPerHour + m * msPerMinute + sec * msPerSecond + ms"

text \<open>The number of days of year \<open>y\<close> before the first of month \<open>mn\<close> (0 to 11).\<close>

definition DaysBeforeMonth :: "int \<Rightarrow> int \<Rightarrow> int" where
  "DaysBeforeMonth y mn =
     (let l = (if DaysInYear y = 366 then 1 else 0)
      in if mn = 0 then 0
         else if mn = 1 then 31
         else if mn = 2 then 59 + l
         else if mn = 3 then 90 + l
         else if mn = 4 then 120 + l
         else if mn = 5 then 151 + l
         else if mn = 6 then 181 + l
         else if mn = 7 then 212 + l
         else if mn = 8 then 243 + l
         else if mn = 9 then 273 + l
         else if mn = 10 then 304 + l
         else 334 + l)"

text \<open>
  MakeDay: the month is carried into the year, the day number of the first of that month
  is found, and the day of the month is added without any range check.
\<close>

definition MakeDay :: "int \<Rightarrow> int \<Rightarrow> int \<Rightarrow> int" where
  "MakeDay year month dt =
     (let ym = year + month div 12; mn = month mod 12
      in DayFromYear ym + DaysBeforeMonth ym mn + dt - 1)"

definition MakeDate :: "int \<Rightarrow> int \<Rightarrow> int" where
  "MakeDate day time = day * msPerDay + time"

definition TimeClip :: "int \<Rightarrow> timevalue" where
  "TimeClip t = (if \<bar>t\<bar> > maxTime then None else Some t)"


section \<open>The arithmetic of Numbers\<close>

text \<open>
  A Number is a double. An integer is a Number when it has at most 53 significant bits
  and is below 2^1024 in magnitude. \<open>fl\<close> rounds an integer to the nearest integer of at
  most 53 significant bits, a tie going to the one whose significand is even; \<open>blen\<close> is
  the number of bits of a positive integer.
\<close>

function blen :: "int \<Rightarrow> nat" where
  "blen a = (if a \<le> 0 then 0 else Suc (blen (a div 2)))"
  by pat_completeness auto
termination
  by (relation "measure nat") auto

declare blen.simps [simp del]

definition fl :: "int \<Rightarrow> int" where
  "fl x =
     (let a = \<bar>x\<bar>;
          q = 2 ^ (blen a - 53);
          k = a div q;
          r = a mod q;
          k' = (if 2 * r < q \<or> (2 * r = q \<and> even k) then k else k + 1)
      in sgn x * (k' * q))"

text \<open>
  In the arithmetic of the Date built-in a Number is an integer, or \<open>None\<close> for a Number
  that is not finite: NaN and the two infinities alike. That loses nothing here: a sum or
  a product with an operand that is not finite is not finite, and MakeTime, MakeDay,
  MakeDate and TimeClip all make NaN of an argument that is not finite. The Number of an
  exact integral result is the rounded integer, an infinity from 2^1024 on.
\<close>

definition round_num :: "int \<Rightarrow> int option" where
  "round_num x = (if \<bar>fl x\<bar> < 2 ^ 1024 then Some (fl x) else None)"

text \<open>
  A Number that is not finite, or of magnitude at least \<open>b\<close>; it serves to bound what a
  rounded result can be.
\<close>

definition beyond :: "int \<Rightarrow> int option \<Rightarrow> bool" where
  "beyond b v = (case v of None \<Rightarrow> True | Some x \<Rightarrow> b \<le> \<bar>x\<bar>)"

text \<open>The operators \<^verbatim>\<open>+\<close> and \<^verbatim>\<open>*\<close> on such Numbers.\<close>

fun num_add :: "int option \<Rightarrow> int option \<Rightarrow> int option" where
  "num_add (Some a) (Some b) = round_num (a + b)"
| "num_add a b = None"

fun num_mul :: "int option \<Rightarrow> int option \<Rightarrow> int option" where
  "num_mul (Some a) (Some b) = round_num (a * b)"
| "num_mul a b = None"

text \<open>
  MakeTime, MakeDay, MakeDate and TimeClip as the language computes them. MakeTime is
  \<^verbatim>\<open>((hour * msPerHour + min * msPerMinute) + sec * msPerSecond) + ms\<close> with the operators of
  Numbers. MakeDay carries the month into the year with one addition, takes the day
  number of the first of that month (a Number itself) and adds the day of the month and
  then -1. MakeDate is \<^verbatim>\<open>day * msPerDay + time\<close>.
\<close>

definition num_MakeTime ::
  "int option \<Rightarrow> int option \<Rightarrow> int option \<Rightarrow> int option \<Rightarrow> int option" where
  "num_MakeTime hour m sec ms =
     num_add
       (num_add (num_add (num_mul hour (Some msPerHour)) (num_mul m (Some msPerMinute)))
          (num_mul sec (Some msPerSecond)))
       ms"

definition num_MakeDay :: "int option \<Rightarrow> int option \<Rightarrow> int option \<Rightarrow> int option" where
  "num_MakeDay year month dt =
     (case year of
        None \<Rightarrow> None
      | Some y \<Rightarrow>
          (case month of
             None \<Rightarrow> None
           | Some m \<Rightarrow>
               (case num_add (Some y) (Some (m div 12)) of
                  None \<Rightarrow> None
                | Some ym \<Rightarrow>
                    (let mn = m mod 12;
                         day = round_num (DayFromYear ym + DaysBeforeMonth ym mn)
                     in num_add (num_add day dt) (Some (- 1))))))"

definition num_MakeDate :: "int option \<Rightarrow> int option \<Rightarrow> int option" where
  "num_MakeDate day time = num_add (num_mul day (Some msPerDay)) time"

definition num_TimeClip :: "int option \<Rightarrow> timevalue" where
  "num_TimeClip time = (case time of None \<Rightarrow> None | Some t \<Rightarrow> TimeClip t)"


section \<open>Getters and setters of \<^verbatim>\<open>Date.prototype\<close>\<close>

text \<open>
  A getter yields NaN on an invalid date. A setter is given here as the function from
  its argument (a Number that is integral, or \<open>None\<close> for one that is not finite) and the
  old time value to the new time value. \<^verbatim>\<open>setUTCFullYear\<close> takes the time value +0 for
  an invalid date; the other setters leave an invalid date invalid.
\<close>

definition getUTCFullYear :: "timevalue \<Rightarrow> int option" where
  "getUTCFullYear tv = map_option YearFromTime tv"

definition getUTCMonth :: "timevalue \<Rightarrow> int option" where
  "getUTCMonth tv = map_option MonthFromTime tv"

definition getUTCDate :: "timevalue \<Rightarrow> int option" where
  "getUTCDate tv = map_option DateFromTime tv"

definition getUTCHours :: "timevalue \<Rightarrow> int option" where
  "getUTCHours tv = map_option HourFromTime tv"

definition getUTCMinutes :: "timevalue \<Rightarrow> int option" where
  "getUTCMinutes tv = map_option MinFromTime tv"

definition getUTCSeconds :: "timevalue \<Rightarrow> int option" where
  "getUTCSeconds tv = map_option SecFromTime tv"

definition getUTCMilliseconds :: "timevalue \<Rightarrow> int option" where
  "getUTCMilliseconds tv = map_option msFromTime tv"

definition setUTCFullYear :: "int option \<Rightarrow> timevalue \<Rightarrow> timevalue" where
  "setUTCFullYear year tv =
     (let t = (case tv of None \<Rightarrow> 0 | Some t0 \<Rightarrow> t0)
      in num_TimeClip
           (num_MakeDate (num_MakeDay year (Some (MonthFromTime t)) (Some (DateFromTime t)))
              (Some (TimeWithinDay t))))"

definition setUTCMonth :: "int option \<Rightarrow> timevalue \<Rightarrow> timevalue" where
  "setUTCMonth month tv =
     (case tv of
        None \<Rightarrow> None
      | Some t \<Rightarrow>
          num_TimeClip
            (num_MakeDate (num_MakeDay (Some (YearFromTime t)) month (Some (DateFromTime t)))
               (Some (TimeWithinDay t))))"

definition setUTCDate :: "int option \<Rightarrow> timevalue \<Rightarrow> timevalue" where
  "setUTCDate date tv =
     (case tv of
        None \<Rightarrow> None
      | Some t \<Rightarrow>
          num_TimeClip
            (num_MakeDate (num_MakeDay (Some (YearFromTime t)) (Some (MonthFromTime t)) date)
               (Some (TimeWithinDay t))))"

definition setUTCHours :: "int option \<Rightarrow> timevalue \<Rightarrow> timevalue" where
  "setUTCHours hour tv =
     (case tv of
        None \<Rightarrow> None
      | Some t \<Rightarrow>
          num_TimeClip
            (num_MakeDate (Some (Day t))
               (num_MakeTime hour (Some (MinFromTime t)) (Some (SecFromTime t))
                  (Some (msFromTime t)))))"

definition setUTCMinutes :: "int option \<Rightarrow> timevalue \<Rightarrow> timevalue" where
  "setUTCMinutes minute tv =
     (case tv of
        None \<Rightarrow> None
      | Some t \<Rightarrow>
          num_TimeClip
            (num_MakeDate (Some (Day t))
               (num_MakeTime (Some (HourFromTime t)) minute (Some (SecFromTime t))
                  (Some (msFromTime t)))))"

definition setUTCSeconds :: "int option \<Rightarrow> timevalue \<Rightarrow> timevalue" where
  "setUTCSeconds sec tv =
     (case tv of
        None \<Rightarrow> None
      | Some t \<Rightarrow>
          num_TimeClip
            (num_MakeDate (Some (Day t))
               (num_MakeTime (Some (HourFromTime t)) (Some (MinFromTime t)) sec
                  (Some (msFromTime t)))))"

definition setUTCMilliseconds :: "int option \<Rightarrow> timevalue \<Rightarrow> timevalue" where
  "setUTCMilliseconds ms tv =
     (case tv of
        None \<Rightarrow> None
      | Some t \<Rightarrow>
          num_TimeClip
            (num_MakeDate (Some (Day t))
               (num_MakeTime (Some (HourFromTime t)) (Some (MinFromTime t))
                  (Some (SecFromTime t)) ms)))"


section \<open>Date objects\<close>

text \<open>
  Date objects are mutable and compared by identity, so they live in a store: the list
  of the time values of the objects allocated so far, an object being its index.
  \<^verbatim>\<open>new Date(d)\<close> for a Date \<open>d\<close> allocates an object with the time value of \<open>d\<close>.
\<close>

type_synonym ref = nat
type_synonym heap = "timevalue list"

definition valueOf :: "heap \<Rightarrow> ref \<Rightarrow> timevalue" where
  "valueOf h r = h ! r"

definition new_Date :: "heap \<Rightarrow> timevalue \<Rightarrow> ref \<times> heap" where
  "new_Date h tv = (length h, h @ [tv])"

text \<open>The relational operators on Numbers: a comparison with NaN is false.\<close>

fun num_gt :: "int option \<Rightarrow> int option \<Rightarrow> bool" where
  "num_gt (Some a) (Some b) = (a > b)"
| "num_gt a b = False"

fun num_lt :: "int option \<Rightarrow> int option \<Rightarrow> bool" where
  "num_lt (Some a) (Some b) = (a < b)"
| "num_lt a b = False"

text \<open>
  The exceptions: the TypeError of reading a property of \<^verbatim>\<open>undefined\<close>, and the Error the
  parser throws for a date string without a year, with the date string of its message.
\<close>

datatype error = TypeError | MalformedDateString string


section \<open>Range clamp\<close>

definition clampDateWithinRange :: "heap \<Rightarrow> ref \<Rightarrow> ref \<Rightarrow> ref \<Rightarrow> ref" where
  "clampDateWithinRange h date minDate maxDate =
     (let finalDate = date;
          finalDate = (if num_gt (valueOf h finalDate) (valueOf h maxDate)
                       then maxDate else finalDate);
          finalDate = (if num_lt (valueOf h finalDate) (valueOf h minDate)
                       then minDate else finalDate)
      in finalDate)"



section \<open>Truncation to a precision\<close>

text \<open>
  \<^verbatim>\<open>getDateAtPrecision(date, precision)\<close> reduces over the table of the seven fields,
  coarsest first. For an index not above the precision the accumulator is returned as it
  is; otherwise a copy of the accumulator is allocated, the handler sets the field of the
  copy to its zero point, and the copy is the new accumulator.
\<close>

definition truncPrecisions :: "((int option \<Rightarrow> timevalue \<Rightarrow> timevalue) \<times> int) list" where
  "truncPrecisions =
     [(setUTCFullYear, 0), (setUTCMonth, 0), (setUTCDate, 1), (setUTCHours, 0),
      (setUTCMinutes, 0), (setUTCSeconds, 0), (setUTCMilliseconds, 0)]"

definition truncStep ::
  "int \<Rightarrow> ref \<times> heap \<Rightarrow> nat \<times> (int option \<Rightarrow> timevalue \<Rightarrow> timevalue) \<times> int \<Rightarrow> ref \<times> heap" where
  "truncStep precision = (\<lambda>(acc, h) (index, (handler, zeroPoint)).
     if int index \<le> precision then (acc, h)
     else (let (newDate, h1) = new_Date h (valueOf h acc);
               h2 = h1[newDate := handler (Some zeroPoint) (valueOf h1 newDate)]
           in (newDate, h2)))"

definition getDateAtPrecision :: "heap \<Rightarrow> ref \<Rightarrow> int \<Rightarrow> ref \<times> heap" where
  "getDateAtPrecision h date precision =
     foldl (truncStep precision) (date, h) (enumerate 0 truncPrecisions)"


section \<open>Offset at a precision\<close>

text \<open>
  \<^verbatim>\<open>offsetDateAtPrecision(date, precision, offset)\<close> reads the setter and getter of the
  field from its table (destructuring the missing entry of a precision outside 0 to 6
  throws a TypeError), copies the date, and sets the field of the copy to its value plus
  the offset.
\<close>

definition offsetPrecisions ::
  "((int option \<Rightarrow> timevalue \<Rightarrow> timevalue) \<times> (timevalue \<Rightarrow> int option)) list" where
  "offsetPrecisions =
     [(setUTCFullYear, getUTCFullYear), (setUTCMonth, getUTCMonth), (setUTCDate, getUTCDate),
      (setUTCHours, getUTCHours), (setUTCMinutes, getUTCMinutes),
      (setUTCSeconds, getUTCSeconds), (setUTCMilliseconds, getUTCMilliseconds)]"

definition offsetDateAtPrecision :: "heap \<Rightarrow> ref \<Rightarrow> int \<Rightarrow> int \<Rightarrow> error + (ref \<times> heap)" where
  "offsetDateAtPrecision h date precision offset =
     (if precision < 0 \<or> int (length offsetPrecisions) \<le> precision then Inl TypeError
      else (let (setter, getter) = offsetPrecisions ! nat precision;
                (newDate, h1) = new_Date h (valueOf h date);
                value = getter (valueOf h1 newDate);
                value = num_add value (Some offset);
                h2 = h1[newDate := setter value (valueOf h1 newDate)]
            in Inr (newDate, h2)))"


section \<open>Notions used to state the properties\<close>

text \<open>A time value a Date object can hold: NaN, or an integer within the range.\<close>

fun valid_timevalue :: "timevalue \<Rightarrow> bool" where
  "valid_timevalue None = True"
| "valid_timevalue (Some t) = (\<bar>t\<bar> \<le> maxTime)"

text \<open>The number of days of month \<open>m\<close> (0 to 11) of year \<open>y\<close>.\<close>

definition DaysInMonth :: "int \<Rightarrow> int \<Rightarrow> int" where
  "DaysInMonth y m =
     (if m = 1 then (if DaysInYear y = 366 then 29 else 28)
      else if m = 3 \<or> m = 5 \<or> m = 8 \<or> m = 10 then 30
      else 31)"

text \<open>
  The getters of the seven fields in the order of the precisions, their zero points, and
  the fields of an instant as a record.
\<close>

definition fieldGetters :: "(timevalue \<Rightarrow> int option) list" where
  "fieldGetters = map snd offsetPrecisions"

definition zeroPoints :: "int list" where
  "zeroPoints = map snd truncPrecisions"

record dateFields =
  fYear :: int
  fMonth :: int
  fDate :: int
  fHours :: int
  fMinutes :: int
  fSeconds :: int
  fMilliseconds :: int

definition fieldsOf :: "int \<Rightarrow> dateFields" where
  "fieldsOf t =
     \<lparr>fYear = YearFromTime t, fMonth = MonthFromTime t, fDate = DateFromTime t,
      fHours = HourFromTime t, fMinutes = MinFromTime t, fSeconds = SecFromTime t,
      fMilliseconds = msFromTime t\<rparr>"

definition fromFields :: "dateFields \<Rightarrow> int" where
  "fromFields f =
     MakeDate (MakeDay (fYear f) (fMonth f) (fDate f))
       (MakeTime (fHours f) (fMinutes f) (fSeconds f) (fMilliseconds f))"

text \<open>Fields that name a day of the calendar and a time of the day.\<close>

definition validFields :: "dateFields \<Rightarrow> bool" where
  "validFields f =
     (0 \<le> fMonth f \<and> fMonth f \<le> 11
      \<and> 1 \<le> fDate f \<and> fDate f \<le> DaysInMonth (fYear f) (fMonth f)
      \<and> 0 \<le> fHours f \<and> fHours f < 24
      \<and> 0 \<le> fMinutes f \<and> fMinutes f < 60
      \<and> 0 \<le> fSeconds f \<and> fSeconds f < 60
      \<and> 0 \<le> fMilliseconds f \<and> fMilliseconds f < 1000)"

text \<open>
  The instant of the specification's truncation: the fields of \<open>t\<close> at or coarser than
  the precision, every finer field at its zero point.
\<close>

definition zeroBelow :: "int \<Rightarrow> dateFields \<Rightarrow> dateFields" where
  "zeroBelow p f =
     \<lparr>fYear = (if 0 \<le> p then fYear f else 0),
      fMonth = (if 1 \<le> p then fMonth f else 0),
      fDate = (if 2 \<le> p then fDate f else 1),
      fHours = (if 3 \<le> p then fHours f else 0),
      fMinutes = (if 4 \<le> p then fMinutes f else 0),
      fSeconds = (if 5 \<le> p then fSeconds f else 0),
      fMilliseconds = (if 6 \<le> p then fMilliseconds f else 0)\<rparr>"

definition instantAtPrecision :: "int \<Rightarrow> int \<Rightarrow> int" where
  "instantAtPrecision p t = fromFields (zeroBelow p (fieldsOf t))"

text \<open>
  The fields of a date whose year and month are set to \<open>y\<close> and \<open>m\<close> while its day of the
  month is kept: the month is carried into the year, and a day beyond the end of the
  month reached is carried into the month after it.
\<close>

definition carriedFields :: "dateFields \<Rightarrow> int \<Rightarrow> int \<Rightarrow> dateFields" where
  "carriedFields f y m =
     (let ym = y + m div 12; mn = m mod 12
      in if fDate f \<le> DaysInMonth ym mn then f\<lparr>fYear := ym, fMonth := mn\<rparr>
         else f\<lparr>fYear := ym + (mn + 1) div 12, fMonth := (mn + 1) mod 12,
                fDate := fDate f - DaysInMonth ym mn\<rparr>)"

text \<open>
  The length in milliseconds of one unit of the field of a precision, from the day (2)
  down to the millisecond (6).
\<close>

definition fieldUnit :: "int \<Rightarrow> int" where
  "fieldUnit p =
     (if p = 2 then msPerDay
      else if p = 3 then msPerHour
      else if p = 4 then msPerMinute
      else if p = 5 then msPerSecond
      else 1)"

text \<open>The reduction of \<^verbatim>\<open>getDateAtPrecision\<close> on the time value alone.\<close>

definition truncValueStep ::
  "int \<Rightarrow> timevalue \<Rightarrow> nat \<times> (int option \<Rightarrow> timevalue \<Rightarrow> timevalue) \<times> int \<Rightarrow> timevalue" where
  "truncValueStep precision = (\<lambda>acc (index, (handler, zeroPoint)).
     if int index \<le> precision then acc else handler (Some zeroPoint) acc)"

definition truncValue :: "int \<Rightarrow> timevalue \<Rightarrow> timevalue" where
  "truncValue precision tv =
     foldl (truncValueStep precision) tv (enumerate 0 truncPrecisions)"



section \<open>Strings\<close>

text \<open>
  Strings are lists of code units; the model has the code units 0 to 255. The functions
  below are the built-ins the date strings go through: the conversion of an integral
  Number to a string, \<^verbatim>\<open>padStart\<close>, \<^verbatim>\<open>slice(0, end)\<close>, \<^verbatim>\<open>join\<close>, \<^verbatim>\<open>split\<close> by a string
  and \<^verbatim>\<open>parseInt(s, 10)\<close>.
\<close>

definition digit_char :: "nat \<Rightarrow> char" where
  "digit_char k = char_of (48 + k)"

fun digits_of_nat :: "nat \<Rightarrow> string" where
  "digits_of_nat n =
     (if n < 10 then [digit_char n] else digits_of_nat (n div 10) @ [digit_char (n mod 10)])"

declare digits_of_nat.simps [simp del]

definition String_of_int :: "int \<Rightarrow> string" where
  "String_of_int i = (if i < 0 then CHR ''-'' # digits_of_nat (nat (- i)) else digits_of_nat (nat i))"

text \<open>The string of a Number that is integral or NaN.\<close>

fun String_of_num :: "int option \<Rightarrow> string" where
  "String_of_num None = ''NaN''"
| "String_of_num (Some i) = String_of_int i"

definition padStart :: "nat \<Rightarrow> char \<Rightarrow> string \<Rightarrow> string" where
  "padStart n c s = replicate (n - length s) c @ s"

text \<open>\<^verbatim>\<open>xs.slice(0, end)\<close>: a negative end counts from the end of the array.\<close>

definition slice0 :: "'a list \<Rightarrow> int \<Rightarrow> 'a list" where
  "slice0 xs e =
     (let len = int (length xs);
          k = (if e < 0 then max (len + e) 0 else min e len)
      in take (nat k) xs)"

fun join :: "string \<Rightarrow> string list \<Rightarrow> string" where
  "join sep [] = []"
| "join sep [x] = x"
| "join sep (x # y # ys) = x @ sep @ join sep (y # ys)"

text \<open>
  \<^verbatim>\<open>s.split(sep)\<close> for a string separator. The scan goes left to right; \<open>k\<close> counts the
  code units of a separator just matched that are still to be skipped, \<open>cur\<close> is the
  current piece, reversed. An empty separator splits into code units.
\<close>

fun splitAux :: "string \<Rightarrow> nat \<Rightarrow> string \<Rightarrow> string \<Rightarrow> string list" where
  "splitAux sep k cur [] = [rev cur]"
| "splitAux sep k cur (c # cs) =
     (if 0 < k then splitAux sep (k - 1) cur cs
      else if take (length sep) (c # cs) = sep then rev cur # splitAux sep (length sep - 1) [] cs
      else splitAux sep 0 (c # cur) cs)"

definition split :: "string \<Rightarrow> string \<Rightarrow> string list" where
  "split s sep = (if sep = [] then map (\<lambda>c. [c]) s else splitAux sep 0 [] s)"

definition is_digit :: "char \<Rightarrow> bool" where
  "is_digit c = (48 \<le> (of_char c :: nat) \<and> (of_char c :: nat) \<le> 57)"

definition digit_value :: "char \<Rightarrow> nat" where
  "digit_value c = of_char c - 48"

text \<open>White space and line terminators among the code units below 256.\<close>

definition is_whitespace :: "char \<Rightarrow> bool" where
  "is_whitespace c = ((of_char c :: nat) \<in> {9, 10, 11, 12, 13, 32, 160})"

definition nat_of_digits :: "string \<Rightarrow> nat" where
  "nat_of_digits ds = foldl (\<lambda>acc c. 10 * acc + digit_value c) 0 ds"

text \<open>
  \<^verbatim>\<open>parseInt(s, 10)\<close>: leading white space is dropped, a sign is read, and the longest
  run of decimal digits that follows is the value; NaN when there is no digit. (The value
  is exact here; the language rounds a value beyond 2^53 to a Number near it, and a date
  set to a value of that size is invalid either way.)
\<close>

definition parseInt10 :: "string \<Rightarrow> jsnum" where
  "parseInt10 s =
     (let s1 = dropWhile is_whitespace s;
          negative = (case s1 of c # _ \<Rightarrow> c = CHR ''-'' | [] \<Rightarrow> False);
          s2 = (case s1 of c # cs \<Rightarrow> (if c = CHR ''+'' \<or> c = CHR ''-'' then cs else s1) | [] \<Rightarrow> s1);
          z = takeWhile is_digit s2
      in if z = [] then NaN
         else Finite (if negative then - real (nat_of_digits z) else real (nat_of_digits z)))"

text \<open>
  Arithmetic on Numbers as the parser uses it: unary minus, the subtraction of one, and
  the integer a Date setter makes of its argument (truncation; no integer for NaN and
  the infinities, which make the date invalid).
\<close>

fun num_neg :: "jsnum \<Rightarrow> jsnum" where
  "num_neg (Finite x) = Finite (- x)"
| "num_neg NaN = NaN"
| "num_neg PosInf = NegInf"
| "num_neg NegInf = PosInf"

fun num_minus_one :: "jsnum \<Rightarrow> jsnum" where
  "num_minus_one (Finite x) = Finite (x - 1)"
| "num_minus_one n = n"

fun ToIntegerArg :: "jsnum \<Rightarrow> int option" where
  "ToIntegerArg (Finite x) = Some (if x < 0 then \<lceil>x\<rceil> else \<lfloor>x\<rfloor>)"
| "ToIntegerArg n = None"

text \<open>
  The Number held by a value of type number. In the parser only Numbers reach the
  arithmetic: the year is checked, the month and the day have Number defaults.
\<close>

fun numberOf :: "jsval \<Rightarrow> jsnum" where
  "numberOf (JNum n) = n"
| "numberOf v = NaN"

text \<open>\<^verbatim>\<open>xs[i]\<close> on an array of Numbers: \<^verbatim>\<open>undefined\<close> beyond the end.\<close>

definition numAt :: "jsnum list \<Rightarrow> nat \<Rightarrow> jsval" where
  "numAt xs i = (if i < length xs then JNum (xs ! i) else JUndefined)"


section \<open>Formatting and parsing at a precision\<close>

text \<open>
  The option \<^verbatim>\<open>delimiter\<close> of both functions is \<open>None\<close> when it is not given; it then
  defaults to \<^verbatim>\<open>'-'\<close>.
\<close>

definition delimiterOf :: "string option \<Rightarrow> string" where
  "delimiterOf options = (case options of None \<Rightarrow> ''-'' | Some delimiter \<Rightarrow> delimiter)"

definition getDateStringAtPrecision :: "heap \<Rightarrow> ref \<Rightarrow> int \<Rightarrow> string option \<Rightarrow> string" where
  "getDateStringAtPrecision h date precision options =
     (let delimiter = delimiterOf options;
          year = getUTCFullYear (valueOf h date);
          yearString =
            (if num_lt year (Some 0)
             then CHR ''-'' # padStart 6 (CHR ''0'') (String_of_num (map_option uminus year))
             else padStart 4 (CHR ''0'') (String_of_num year));
          dateStringSegments =
            [yearString,
             padStart 2 (CHR ''0'') (String_of_num (num_add (getUTCMonth (valueOf h date)) (Some 1))),
             padStart 2 (CHR ''0'') (String_of_num (getUTCDate (valueOf h date)))];
          necessarySegments = slice0 dateStringSegments (precision + 1);
          dateString = join delimiter necessarySegments
      in dateString)"

text \<open>
  \<^verbatim>\<open>parseDateStringWithPrecision\<close>. \<open>now\<close> is the time value \<^verbatim>\<open>new Date()\<close> reads from the
  clock. The thrown Error is \<open>MalformedDateString\<close> with the date string of its message.
\<close>

definition parseDateStringWithPrecision ::
  "heap \<Rightarrow> int \<Rightarrow> string \<Rightarrow> int \<Rightarrow> string option \<Rightarrow> error + (ref \<times> heap)" where
  "parseDateStringWithPrecision h now dateString precision options =
     (let delimiter = delimiterOf options;
          isBcYear = (case dateString of c # _ \<Rightarrow> c = CHR ''-'' | [] \<Rightarrow> False);
          absYearStr = (if isBcYear then drop 1 dateString else dateString);
          dateStringSegments = split absYearStr delimiter;
          dateValueSegments = map parseInt10 dateStringSegments;
          absYear = getNumber (numAt dateValueSegments 0) JUndefined
      in if absYear = JUndefined then Inl (MalformedDateString dateString)
         else
           (let (today, h0) = new_Date h (TimeClip now);
                (date, h1) = getDateAtPrecision h0 today (- 1);
                year = (if isBcYear then num_neg (numberOf absYear) else numberOf absYear);
                month = getNumber (numAt dateValueSegments 1) (JNum (Finite 1));
                day = getNumber (numAt dateValueSegments 2) (JNum (Finite 1));
                h2 = h1[date := setUTCFullYear (ToIntegerArg year) (valueOf h1 date)];
                h3 = h2[date := setUTCMonth (ToIntegerArg (num_minus_one (numberOf month)))
                                  (valueOf h2 date)];
                h4 = h3[date := setUTCDate (ToIntegerArg (numberOf day)) (valueOf h3 date)];
                dateAtPrecision = getDateAtPrecision h4 date precision
            in Inr dateAtPrecision))"


text \<open>
  Notions used to state the properties of the parser, for the default delimiter. The year
  segment of a date string is the text before the first delimiter, a leading minus sign
  removed. The specification speaks of a numeric year segment; read as written that is a
  decimal numeral, a non-empty run of decimal digits (\<open>decimalNumeral\<close>). What
  \<^verbatim>\<open>parseInt\<close> can read a number from is any segment that begins, after white space and
  one optional sign, with a decimal digit (\<open>hasIntegerPrefix\<close>): \<^verbatim>\<open>12ab\<close> has the integer
  prefix 12 and is not a decimal numeral, and the empty segment has no integer prefix.
\<close>

definition yearSegment :: "string \<Rightarrow> string" where
  "yearSegment s =
     takeWhile (\<lambda>c. c \<noteq> CHR ''-'')
       (case s of c # cs \<Rightarrow> (if c = CHR ''-'' then cs else s) | [] \<Rightarrow> s)"

definition decimalNumeral :: "string \<Rightarrow> bool" where
  "decimalNumeral seg = (seg \<noteq> [] \<and> list_all is_digit seg)"

definition hasIntegerPrefix :: "string \<Rightarrow> bool" where
  "hasIntegerPrefix seg =
     (case dropWhile is_whitespace seg of
        [] \<Rightarrow> False
      | c # cs \<Rightarrow>
          (if c = CHR ''+'' \<or> c = CHR ''-''
           then (case cs of [] \<Rightarrow> False | d # _ \<Rightarrow> is_digit d)
           else is_digit c))"

text \<open>The time value of 0000-01-01T00:00:00.000Z, the date with every field cleared.\<close>

definition clearedDate :: int where
  "clearedDate = - 62167219200000"

text \<open>
  The arguments the parser passes to the three setters, and the time value of the date
  it returns when the year is present.
\<close>

definition parsedArguments :: "string \<Rightarrow> string option \<Rightarrow> int option \<times> int option \<times> int option" where
  "parsedArguments dateString options =
     (let isBcYear = (case dateString of c # _ \<Rightarrow> c = CHR ''-'' | [] \<Rightarrow> False);
          absYearStr = (if isBcYear then drop 1 dateString else dateString);
          dateValueSegments = map parseInt10 (split absYearStr (delimiterOf options));
          absYear = getNumber (numAt dateValueSegments 0) JUndefined;
          year = (if isBcYear then num_neg (numberOf absYear) else numberOf absYear);
          month = getNumber (numAt dateValueSegments 1) (JNum (Finite 1));
          day = getNumber (numAt dateValueSegments 2) (JNum (Finite 1))
      in (ToIntegerArg year, ToIntegerArg (num_minus_one (numberOf month)),
          ToIntegerArg (numberOf day)))"

definition parsedValue :: "string \<Rightarrow> int \<Rightarrow> string option \<Rightarrow> timevalue" where
  "parsedValue dateString precision options =
     (case parsedArguments dateString options of
        (year, month, day) \<Rightarrow>
          truncValue precision
            (setUTCDate day (setUTCMonth month (setUTCFullYear year (Some clearedDate)))))"


section \<open>Filling a template string\<close>

text \<open>
  A filler is a literal value or a function; a function is modelled by the value it
  returns when called without arguments. The fillers are the own properties of the
  \<^verbatim>\<open>fillers\<close> object, a map from names; the data store is absent (\<open>None\<close>) or a map that
  the call may extend.
\<close>

datatype filler = Literal jsval | Producer jsval

type_synonym dataStore = "(string \<rightharpoonup> jsval) option"

text \<open>The truthiness of a value; a function is truthy.\<close>

fun truthy :: "jsval \<Rightarrow> bool" where
  "truthy JUndefined = False"
| "truthy JNull = False"
| "truthy (JBool b) = b"
| "truthy (JNum (Finite x)) = (x \<noteq> 0)"
| "truthy (JNum NaN) = False"
| "truthy (JNum n) = True"
| "truthy (JStr s) = (s \<noteq> [])"
| "truthy v = True"

fun truthy_filler :: "filler \<Rightarrow> bool" where
  "truthy_filler (Literal v) = truthy v"
| "truthy_filler (Producer v) = True"

text \<open>\<^verbatim>\<open>typeof filler === 'function' ? filler() : filler\<close>\<close>

fun resolve :: "filler \<Rightarrow> jsval" where
  "resolve (Literal v) = v"
| "resolve (Producer v) = v"

text \<open>
  \<^verbatim>\<open>String(value)\<close> for the values of the model: plain objects and arrays without
  methods of their own. The digits of a Number are given for the integers below 10^21;
  the shortest decimal of any other finite Number is not modelled and left unspecified.
\<close>

fun String_conv :: "jsval \<Rightarrow> string" where
  "String_conv JUndefined = ''undefined''"
| "String_conv JNull = ''null''"
| "String_conv (JBool b) = (if b then ''true'' else ''false'')"
| "String_conv (JNum (Finite x)) =
     (if x = of_int \<lfloor>x\<rfloor> \<and> \<bar>x\<bar> < 10 ^ 21 then String_of_int \<lfloor>x\<rfloor> else undefined)"
| "String_conv (JNum NaN) = ''NaN''"
| "String_conv (JNum PosInf) = ''Infinity''"
| "String_conv (JNum NegInf) = ''-Infinity''"
| "String_conv (JStr s) = s"
| "String_conv (JObj ps) = ''[object Object]''"
| "String_conv (JArr vs) =
     join '','' (map (\<lambda>v. if v = JNull \<or> v = JUndefined then [] else String_conv v) vs)"

text \<open>
  The placeholder pattern \<^verbatim>\<open>/\{([a-z-_][a-z0-9-_]*)\}/\<close>, case-insensitive: a brace, a
  name that starts with a letter, a hyphen or an underscore and goes on with letters,
  digits, hyphens and underscores, and a closing brace. \<open>placeholderAt\<close> is the name when
  the pattern matches at the start of the string.
\<close>

definition is_letter :: "char \<Rightarrow> bool" where
  "is_letter c =
     ((65 \<le> (of_char c :: nat) \<and> (of_char c :: nat) \<le> 90)
      \<or> (97 \<le> (of_char c :: nat) \<and> (of_char c :: nat) \<le> 122))"

definition is_name_start :: "char \<Rightarrow> bool" where
  "is_name_start c = (is_letter c \<or> c = CHR ''-'' \<or> c = CHR ''_'')"

definition is_name_char :: "char \<Rightarrow> bool" where
  "is_name_char c = (is_letter c \<or> is_digit c \<or> c = CHR ''-'' \<or> c = CHR ''_'')"

definition placeholderAt :: "string \<Rightarrow> string option" where
  "placeholderAt s =
     (case s of
        b # c # rest \<Rightarrow>
          (if b = CHR ''{'' \<and> is_name_start c
           then (case dropWhile is_name_char rest of
                   e # _ \<Rightarrow> (if e = CHR ''}'' then Some (c # takeWhile is_name_char rest) else None)
                 | [] \<Rightarrow> None)
           else None)
      | _ \<Rightarrow> None)"

text \<open>
  \<^verbatim>\<open>templateString.match(placeholderGlobalFindPattern)\<close>: the matched substrings from left
  to right, the scan going on after each match (\<open>k\<close> counts the code units of the match
  still to be passed); the empty list stands for \<^verbatim>\<open>null\<close>.
\<close>

fun scanPlaceholders :: "nat \<Rightarrow> string \<Rightarrow> string list" where
  "scanPlaceholders k [] = []"
| "scanPlaceholders k (c # cs) =
     (if 0 < k then scanPlaceholders (k - 1) cs
      else (case placeholderAt (c # cs) of
              Some name \<Rightarrow> (CHR ''{'' # name @ ''}'') # scanPlaceholders (length name + 1) cs
            | None \<Rightarrow> scanPlaceholders 0 cs))"

text \<open>\<^verbatim>\<open>matchedString.match(placeholderPattern)\<close>: the name of the first match, if any.\<close>

fun firstPlaceholder :: "string \<Rightarrow> string option" where
  "firstPlaceholder [] = None"
| "firstPlaceholder (c # cs) =
     (case placeholderAt (c # cs) of
        Some name \<Rightarrow> Some name
      | None \<Rightarrow> firstPlaceholder cs)"

text \<open>
  \<^verbatim>\<open>str.replace(searchString, replaceValue)\<close> with two strings: the first occurrence of the
  search string is replaced by the expansion of the replace value, in which \<^verbatim>\<open>$$\<close> stands
  for a dollar sign, \<^verbatim>\<open>$&\<close> for the matched text, and a dollar sign before a backquote or
  an apostrophe for the text before or after the match; there are no captures, so any
  other dollar sign stands for itself.
\<close>

fun findFirst :: "string \<Rightarrow> string \<Rightarrow> string \<Rightarrow> (string \<times> string) option" where
  "findFirst pat pre [] = (if pat = [] then Some (rev pre, []) else None)"
| "findFirst pat pre (c # cs) =
     (if take (length pat) (c # cs) = pat then Some (rev pre, drop (length pat) (c # cs))
      else findFirst pat (c # pre) cs)"

fun getSubstitution :: "string \<Rightarrow> string \<Rightarrow> string \<Rightarrow> string \<Rightarrow> string" where
  "getSubstitution matched pre post (a # b # rest) =
     (if a = CHR ''$'' \<and> b = CHR ''$'' then CHR ''$'' # getSubstitution matched pre post rest
      else if a = CHR ''$'' \<and> b = CHR ''&'' then matched @ getSubstitution matched pre post rest
      else if a = CHR ''$'' \<and> b = CHR 0x60 then pre @ getSubstitution matched pre post rest
      else if a = CHR ''$'' \<and> b = CHR 0x27 then post @ getSubstitution matched pre post rest
      else a # getSubstitution matched pre post (b # rest))"
| "getSubstitution matched pre post rest = rest"

definition replace :: "string \<Rightarrow> string \<Rightarrow> string \<Rightarrow> string" where
  "replace str searchString replaceValue =
     (case findFirst searchString [] str of
        None \<Rightarrow> str
      | Some (pre, post) \<Rightarrow> pre @ getSubstitution searchString pre post replaceValue @ post)"

text \<open>
  \<^verbatim>\<open>encodeURIComponent\<close> on the code units of the model: letters, digits and
  \<^verbatim>\<open>- _ . ! ~ * ' ( )\<close> stand for themselves, any other code unit is the percent-encoding
  of its UTF-8 bytes, one below 128 and two from 128 on.
\<close>

definition hexDigit :: "nat \<Rightarrow> char" where
  "hexDigit k = ''0123456789ABCDEF'' ! k"

definition percentByte :: "nat \<Rightarrow> string" where
  "percentByte b = [CHR ''%'', hexDigit (b div 16), hexDigit (b mod 16)]"

definition uriUnreserved :: "char \<Rightarrow> bool" where
  "uriUnreserved c =
     (is_letter c \<or> is_digit c \<or> c \<in> set (CHR 0x27 # ''-_.!~*()''))"

definition encodeURIComponent :: "string \<Rightarrow> string" where
  "encodeURIComponent s =
     concat (map (\<lambda>c. if uriUnreserved c then [c]
                       else if (of_char c :: nat) < 128 then percentByte (of_char c)
                       else percentByte (192 + of_char c div 64) @ percentByte (128 + of_char c mod 64))
               s)"

text \<open>
  \<^verbatim>\<open>fillTemplateStringSegment\<close> returns the new string; the data store it may have written
  to is returned with it.
\<close>

definition fillTemplateStringSegment ::
  "string \<Rightarrow> string \<Rightarrow> (string \<rightharpoonup> filler) \<Rightarrow> dataStore \<Rightarrow> string \<times> dataStore" where
  "fillTemplateStringSegment templateString matchedString fillers dataStore =
     (case firstPlaceholder matchedString of
        None \<Rightarrow> (templateString, dataStore)
      | Some fillerName \<Rightarrow>
          (case fillers fillerName of
             None \<Rightarrow> (replace templateString matchedString [], dataStore)
           | Some filler \<Rightarrow>
               if \<not> truthy_filler filler
               then (replace templateString matchedString [], dataStore)
               else
                 (let replacementValue = resolve filler;
                      (replacementString, dataStoreValue) =
                        (if replacementValue = JNull \<or> replacementValue = JUndefined
                         then ([], None)
                         else (case replacementValue of
                                 JStr s \<Rightarrow> (encodeURIComponent s, None)
                               | _ \<Rightarrow>
                                   (if dataStore \<noteq> None then ([], Some replacementValue)
                                    else (String_conv replacementValue, None))));
                      dataStore' =
                        (case dataStore of
                           Some store \<Rightarrow>
                             (if dataStoreValue \<noteq> None
                              then Some (store(fillerName \<mapsto> replacementValue))
                              else dataStore)
                         | None \<Rightarrow> dataStore)
                  in (replace templateString matchedString replacementString, dataStore'))))"

definition fillTemplateString ::
  "string \<Rightarrow> (string \<rightharpoonup> filler) \<Rightarrow> dataStore \<Rightarrow> string \<times> dataStore" where
  "fillTemplateString templateString fillers dataStore =
     (if templateString = [] then (templateString, dataStore)
      else (let match = scanPlaceholders 0 templateString
            in if match = [] then (templateString, dataStore)
               else foldl (\<lambda>(str, store) matchedString.
                             fillTemplateStringSegment str matchedString fillers store)
                      (templateString, dataStore) match))"


section \<open>The calendar: years, months and days\<close>

lemma div_succ:
  fixes x k :: int
  assumes "0 < k"
  shows "(x + 1) div k = x div k + (if (x + 1) mod k = 0 then 1 else 0)"
proof (cases "x mod k = k - 1")
  case True
  have "x = k * (x div k) + x mod k" by simp
  then have "x + 1 = k * (x div k) + k" using True by linarith
  then have e: "x + 1 = k * (x div k + 1) + 0" by (simp add: algebra_simps)
  have d: "(x + 1) div k = x div k + 1"
    by (rule int_div_pos_eq [OF e]) (use assms in simp_all)
  have m: "(x + 1) mod k = 0"
    by (rule int_mod_pos_eq [OF e]) (use assms in simp_all)
  show ?thesis using d m by simp
next
  case False
  have r: "0 \<le> x mod k" "x mod k < k" using assms by simp_all
  have e: "x + 1 = k * (x div k) + (x mod k + 1)" by simp
  have b: "0 \<le> x mod k + 1" "x mod k + 1 < k" using r False by linarith+
  have d: "(x + 1) div k = x div k" using int_div_pos_eq [OF e b] .
  have m: "(x + 1) mod k = x mod k + 1" using int_mod_pos_eq [OF e b] .
  show ?thesis using d m r by simp
qed

lemma mod_shift: "(x - k * c) mod k = x mod (k::int)"
  using mod_mult_self2 [of x k "- c"] by simp

lemma DayFromYear_Suc: "DayFromYear (y + 1) = DayFromYear y + DaysInYear y"
proof -
  define A where "A = (y - 1969) div 4"
  define B where "B = (y - 1901) div 100"
  define C where "C = (y - 1601) div 400"
  have a: "(y - 1968) div 4 = A + (if y mod 4 = 0 then 1 else 0)"
    using div_succ [of 4 "y - 1969"] mod_shift [of y 4 492] by (simp add: A_def)
  have b: "(y - 1900) div 100 = B + (if y mod 100 = 0 then 1 else 0)"
    using div_succ [of 100 "y - 1901"] mod_shift [of y 100 19] by (simp add: B_def)
  have c: "(y - 1600) div 400 = C + (if y mod 400 = 0 then 1 else 0)"
    using div_succ [of 400 "y - 1601"] mod_shift [of y 400 4] by (simp add: C_def)
  have d: "y mod 100 = 0 \<Longrightarrow> y mod 4 = 0"
    using mod_mod_cancel [of 4 100 y] by simp
  have e: "y mod 400 = 0 \<Longrightarrow> y mod 100 = 0"
    using mod_mod_cancel [of 100 400 y] by simp
  have l: "DayFromYear (y + 1) = 365 * (y - 1969) + (y - 1968) div 4 - (y - 1900) div 100 + (y - 1600) div 400"
    by (simp add: DayFromYear_def)
  have r: "DayFromYear y = 365 * (y - 1970) + A - B + C"
    by (simp add: DayFromYear_def A_def B_def C_def)
  show ?thesis unfolding l r a b c DaysInYear_def using d e
    by (cases "y mod 4 = 0"; cases "y mod 100 = 0"; cases "y mod 400 = 0") simp_all
qed


lemma DayFromYear_bounds:
  "400 * DayFromYear y \<le> 146097 * (y - 1970) + 589"
  "146097 * (y - 1970) - 506 \<le> 400 * DayFromYear y"
proof -
  define A where "A = (y - 1969) div 4"
  define B where "B = (y - 1901) div 100"
  define C where "C = (y - 1601) div 400"
  have a: "4 * A \<le> y - 1969" "y - 1969 \<le> 4 * A + 3"
    using div_mult_mod_eq [of "y - 1969" 4] pos_mod_bound [of 4 "y - 1969"]
      pos_mod_sign [of 4 "y - 1969"] unfolding A_def by linarith+
  have b: "100 * B \<le> y - 1901" "y - 1901 \<le> 100 * B + 99"
    using div_mult_mod_eq [of "y - 1901" 100] pos_mod_bound [of 100 "y - 1901"]
      pos_mod_sign [of 100 "y - 1901"] unfolding B_def by linarith+
  have c: "400 * C \<le> y - 1601" "y - 1601 \<le> 400 * C + 399"
    using div_mult_mod_eq [of "y - 1601" 400] pos_mod_bound [of 400 "y - 1601"]
      pos_mod_sign [of 400 "y - 1601"] unfolding C_def by linarith+
  have r: "DayFromYear y = 365 * (y - 1970) + A - B + C"
    by (simp add: DayFromYear_def A_def B_def C_def)
  show "400 * DayFromYear y \<le> 146097 * (y - 1970) + 589"
    unfolding r using a b c by (simp add: algebra_simps)
  show "146097 * (y - 1970) - 506 \<le> 400 * DayFromYear y"
    unfolding r using a b c by (simp add: algebra_simps)
qed

lemma DaysInYear_pos: "365 \<le> DaysInYear y" "DaysInYear y \<le> 366"
  by (simp_all add: DaysInYear_def)

lemma DayFromYear_mono: "y \<le> y' \<Longrightarrow> DayFromYear y \<le> DayFromYear y'"
proof (induction y' rule: int_ge_induct)
  case base
  show ?case by simp
next
  case (step i)
  then show ?case using DayFromYear_Suc [of i] DaysInYear_pos [of i] by linarith
qed

lemma YearFromTime_bounds:
  "DayFromYear (YearFromTime t) \<le> Day t" "Day t < DayFromYear (YearFromTime t + 1)"
proof -
  define d where "d = Day t"
  define y where "y = 1970 + (400 * d) div 146097"
  have q: "146097 * (y - 1970) \<le> 400 * d" "400 * d < 146097 * (y - 1970) + 146097"
  proof -
    define Q where "Q = (400 * d) div 146097"
    have "146097 * Q \<le> 400 * d \<and> 400 * d < 146097 * Q + 146097"
      using div_mult_mod_eq [of "400 * d" 146097] pos_mod_bound [of 146097 "400 * d"]
        pos_mod_sign [of 146097 "400 * d"] unfolding Q_def by linarith
    then show "146097 * (y - 1970) \<le> 400 * d" "400 * d < 146097 * (y - 1970) + 146097"
      unfolding y_def Q_def [symmetric] by simp_all
  qed
  have lo: "DayFromYear (y - 1) \<le> d"
    using DayFromYear_bounds(1) [of "y - 1"] q by (simp add: algebra_simps)
  have hi: "d < DayFromYear (y + 2)"
    using DayFromYear_bounds(2) [of "y + 2"] q by (simp add: algebra_simps)
  have Y: "YearFromTime t = (if d < DayFromYear y then y - 1
         else if DayFromYear (y + 1) \<le> d then y + 1 else y)"
    by (simp add: YearFromTime_def Let_def d_def y_def)
  show "DayFromYear (YearFromTime t) \<le> Day t"
    unfolding Y d_def [symmetric] using lo by simp
  have e: "y - 1 + 1 = y" "y + 1 + 1 = y + 2" by simp_all
  show "Day t < DayFromYear (YearFromTime t + 1)"
    unfolding Y d_def [symmetric] using hi by (simp add: e)
qed

lemma YearFromTime_unique:
  assumes "DayFromYear y \<le> Day t" "Day t < DayFromYear (y + 1)"
  shows "YearFromTime t = y"
proof (rule ccontr)
  assume n: "YearFromTime t \<noteq> y"
  show False
  proof (cases "YearFromTime t < y")
    case True
    then have "DayFromYear (YearFromTime t + 1) \<le> DayFromYear y"
      by (intro DayFromYear_mono) simp
    then show False using YearFromTime_bounds(2) [of t] assms by linarith
  next
    case False
    then have "DayFromYear (y + 1) \<le> DayFromYear (YearFromTime t)"
      using n by (intro DayFromYear_mono) simp
    then show False using YearFromTime_bounds(1) [of t] assms by linarith
  qed
qed

lemma Day_MakeDate:
  assumes "0 \<le> tw" "tw < msPerDay"
  shows "Day (MakeDate dd tw) = dd" "TimeWithinDay (MakeDate dd tw) = tw"
proof -
  have e: "MakeDate dd tw = msPerDay * dd + tw" by (simp add: MakeDate_def)
  show "Day (MakeDate dd tw) = dd"
    unfolding Day_def by (rule int_div_pos_eq [OF e assms])
  show "TimeWithinDay (MakeDate dd tw) = tw"
    unfolding TimeWithinDay_def by (rule int_mod_pos_eq [OF e assms])
qed

lemma month_cases:
  fixes m :: int
  assumes "0 \<le> m" "m \<le> 11"
  shows "m = 0 \<or> m = 1 \<or> m = 2 \<or> m = 3 \<or> m = 4 \<or> m = 5 \<or> m = 6 \<or> m = 7 \<or> m = 8
         \<or> m = 9 \<or> m = 10 \<or> m = 11"
  using assms by presburger

lemma DaysInYear_cases: "DaysInYear y = 365 \<or> DaysInYear y = 366"
  by (simp add: DaysInYear_def)

lemma MakeDay_in_year:
  assumes "0 \<le> m" "m \<le> 11"
  shows "MakeDay y m dt = DayFromYear y + DaysBeforeMonth y m + dt - 1"
proof -
  have "m div 12 = 0" "m mod 12 = m" using assms by simp_all
  then show ?thesis by (simp add: MakeDay_def)
qed

lemma day_in_year_range:
  assumes "0 \<le> m" "m \<le> 11" "1 \<le> dt" "dt \<le> DaysInMonth y m"
  shows "0 \<le> DaysBeforeMonth y m + dt - 1" "DaysBeforeMonth y m + dt - 1 < DaysInYear y"
  using month_cases [OF assms(1,2)] DaysInYear_cases [of y] assms(3,4)
  by - (elim disjE; simp add: DaysBeforeMonth_def DaysInMonth_def)+

lemma fields_of_day:
  assumes m: "0 \<le> m" "m \<le> 11" and dt: "1 \<le> dt" "dt \<le> DaysInMonth y m"
    and t: "Day t = MakeDay y m dt"
  shows "YearFromTime t = y" "MonthFromTime t = m" "DateFromTime t = dt"
proof -
  have d: "Day t = DayFromYear y + (DaysBeforeMonth y m + dt - 1)"
    using t MakeDay_in_year [OF m] by simp
  show Y: "YearFromTime t = y"
    using d day_in_year_range [OF m dt] DayFromYear_Suc [of y]
    by (intro YearFromTime_unique) linarith+
  have w: "DayWithinYear t = DaysBeforeMonth y m + dt - 1"
    by (simp add: DayWithinYear_def Y d)
  have l: "InLeapYear t = (if DaysInYear y = 366 then 1 else 0)"
    by (simp add: InLeapYear_def Y)
  show M: "MonthFromTime t = m"
    unfolding MonthFromTime_def w l
    using month_cases [OF m] DaysInYear_cases [of y] dt
    by - (elim disjE; simp add: DaysBeforeMonth_def DaysInMonth_def)
  show "DateFromTime t = dt"
    unfolding DateFromTime_def M w l
    using month_cases [OF m] DaysInYear_cases [of y] dt
    by - (elim disjE; simp add: DaysBeforeMonth_def DaysInMonth_def)
qed


lemma fields_range:
  "0 \<le> MonthFromTime t" "MonthFromTime t \<le> 11" "1 \<le> DateFromTime t"
  "DateFromTime t \<le> DaysInMonth (YearFromTime t) (MonthFromTime t)"
  "Day t = MakeDay (YearFromTime t) (MonthFromTime t) (DateFromTime t)"
proof -
  define y where "y = YearFromTime t"
  define w where "w = DayWithinYear t"
  define L :: int where "L = (if DaysInYear y = 366 then 1 else 0)"
  have L: "L = 0 \<or> L = 1" by (simp add: L_def)
  have Y: "DaysInYear y = 365 + L" using DaysInYear_cases [of y] by (auto simp: L_def)
  have w0: "0 \<le> w" "w < 365 + L"
    using YearFromTime_bounds [of t] DayFromYear_Suc [of y] Y
    unfolding w_def DayWithinYear_def y_def by linarith+
  have l: "InLeapYear t = L"
    by (simp add: InLeapYear_def y_def L_def)
  have C: "w < 31 \<or> (31 \<le> w \<and> w < 59 + L) \<or> (59 + L \<le> w \<and> w < 90 + L)
     \<or> (90 + L \<le> w \<and> w < 120 + L) \<or> (120 + L \<le> w \<and> w < 151 + L)
     \<or> (151 + L \<le> w \<and> w < 181 + L) \<or> (181 + L \<le> w \<and> w < 212 + L)
     \<or> (212 + L \<le> w \<and> w < 243 + L) \<or> (243 + L \<le> w \<and> w < 273 + L)
     \<or> (273 + L \<le> w \<and> w < 304 + L) \<or> (304 + L \<le> w \<and> w < 334 + L)
     \<or> 334 + L \<le> w" by linarith
  have R: "0 \<le> MonthFromTime t \<and> MonthFromTime t \<le> 11 \<and> 1 \<le> DateFromTime t
     \<and> DateFromTime t \<le> DaysInMonth y (MonthFromTime t)
     \<and> w = DaysBeforeMonth y (MonthFromTime t) + DateFromTime t - 1"
    unfolding DateFromTime_def MonthFromTime_def l w_def [symmetric] Let_def
      DaysInMonth_def DaysBeforeMonth_def L_def [symmetric] Y
    using C L w0
    by - (elim disjE conjE; simp)
  show m0: "0 \<le> MonthFromTime t" and m1: "MonthFromTime t \<le> 11"
    and "1 \<le> DateFromTime t"
    and "DateFromTime t \<le> DaysInMonth (YearFromTime t) (MonthFromTime t)"
    using R by (simp_all add: y_def)
  show "Day t = MakeDay (YearFromTime t) (MonthFromTime t) (DateFromTime t)"
    unfolding MakeDay_in_year [OF m0 m1] y_def [symmetric]
    using R by (simp add: w_def DayWithinYear_def y_def)
qed

lemma time_decomp:
  "TimeWithinDay t = MakeTime (HourFromTime t) (MinFromTime t) (SecFromTime t) (msFromTime t)"
proof -
  have a: "t mod 60000 = 1000 * (t div 1000 mod 60) + t mod 1000"
    using zmod_zmult2_eq [of 60 t 1000] by simp
  have b: "t mod 3600000 = 60000 * (t div 60000 mod 60) + t mod 60000"
    using zmod_zmult2_eq [of 60 t 60000] by simp
  have c: "t mod 86400000 = 3600000 * (t div 3600000 mod 24) + t mod 3600000"
    using zmod_zmult2_eq [of 24 t 3600000] by simp
  show ?thesis
    unfolding TimeWithinDay_def MakeTime_def HourFromTime_def MinFromTime_def SecFromTime_def
      msFromTime_def msPerDay_def msPerHour_def msPerMinute_def msPerSecond_def c b a
    by (simp only: mult.commute add.assoc)
qed

lemma time_fields_range:
  "0 \<le> HourFromTime t" "HourFromTime t < 24" "0 \<le> MinFromTime t" "MinFromTime t < 60"
  "0 \<le> SecFromTime t" "SecFromTime t < 60" "0 \<le> msFromTime t" "msFromTime t < 1000"
  by (simp_all add: HourFromTime_def MinFromTime_def SecFromTime_def msFromTime_def
      msPerSecond_def)

lemma MakeTime_range:
  assumes "0 \<le> h" "h < 24" "0 \<le> mi" "mi < 60" "0 \<le> s" "s < 60" "0 \<le> ms" "ms < 1000"
  shows "0 \<le> MakeTime h mi s ms" "MakeTime h mi s ms < msPerDay"
  using assms by (simp_all add: MakeTime_def msPerDay_def msPerHour_def msPerMinute_def
      msPerSecond_def)

lemma div_mod_unique:
  fixes a b q r :: int
  assumes "a = b * q + r" "0 \<le> r" "r < b"
  shows "a div b = q" "a mod b = r"
  using int_div_pos_eq [OF assms] int_mod_pos_eq [OF assms] by simp_all

lemma time_fields:
  assumes "0 \<le> h" "h < 24" "0 \<le> mi" "mi < 60" "0 \<le> s" "s < 60" "0 \<le> ms" "ms < 1000"
    and t: "t = MakeDate dd (MakeTime h mi s ms)"
  shows "HourFromTime t = h" "MinFromTime t = mi" "SecFromTime t = s" "msFromTime t = ms"
proof -
  have e1: "t = 1000 * (dd * 86400 + h * 3600 + mi * 60 + s) + ms"
    by (simp add: t MakeDate_def MakeTime_def msPerDay_def msPerHour_def msPerMinute_def
        msPerSecond_def)
  have e2: "t = 60000 * (dd * 1440 + h * 60 + mi) + (s * 1000 + ms)"
    by (simp add: t MakeDate_def MakeTime_def msPerDay_def msPerHour_def msPerMinute_def
        msPerSecond_def)
  have e3: "t = 3600000 * (dd * 24 + h) + (mi * 60000 + s * 1000 + ms)"
    by (simp add: t MakeDate_def MakeTime_def msPerDay_def msPerHour_def msPerMinute_def
        msPerSecond_def)
  have r2: "0 \<le> s * 1000 + ms" "s * 1000 + ms < 60000" using assms by linarith+
  have r3: "0 \<le> mi * 60000 + s * 1000 + ms" "mi * 60000 + s * 1000 + ms < 3600000"
    using assms by linarith+
  have d1: "t div 1000 = dd * 86400 + h * 3600 + mi * 60 + s"
    by (rule div_mod_unique(1) [OF e1 assms(7,8)])
  have d2: "t div 60000 = dd * 1440 + h * 60 + mi"
    by (rule div_mod_unique(1) [OF e2 r2])
  have d3: "t div 3600000 = dd * 24 + h"
    by (rule div_mod_unique(1) [OF e3 r3])
  show "msFromTime t = ms"
    unfolding msFromTime_def msPerSecond_def by (rule div_mod_unique(2) [OF e1 assms(7,8)])
  have f1: "dd * 86400 + h * 3600 + mi * 60 + s = 60 * (dd * 1440 + h * 60 + mi) + s" by simp
  show "SecFromTime t = s"
    unfolding SecFromTime_def msPerSecond_def d1
    by (rule div_mod_unique(2) [OF f1 assms(5,6)])
  have f2: "dd * 1440 + h * 60 + mi = 60 * (dd * 24 + h) + mi" by simp
  show "MinFromTime t = mi"
    unfolding MinFromTime_def msPerMinute_def d2
    by (rule div_mod_unique(2) [OF f2 assms(3,4)])
  have f3: "dd * 24 + h = 24 * dd + h" by simp
  show "HourFromTime t = h"
    unfolding HourFromTime_def msPerHour_def d3
    by (rule div_mod_unique(2) [OF f3 assms(1,2)])
qed

section \<open>Rounding of Numbers and the setters in exact arithmetic\<close>

lemma blen_bounds:
  "0 < a \<Longrightarrow> 2 ^ (blen a - 1) \<le> a \<and> a < 2 ^ blen a"
proof (induction a rule: blen.induct)
  case (1 a)
  show ?case
  proof (cases "a div 2 \<le> 0")
    case True
    then have a: "a = 1" using 1(2) by presburger
    have "blen 1 = 1" by (simp add: blen.simps [of 1] blen.simps [of 0])
    then show ?thesis using a by simp
  next
    case False
    then have p: "0 < a div 2" by simp
    have n: "\<not> a \<le> 0" using 1(2) by simp
    note ih = 1(1) [OF n p]
    have b: "blen a = Suc (blen (a div 2))" using n by (simp add: blen.simps [of a])
    have pos: "0 < blen (a div 2)" using p by (simp add: blen.simps [of "a div 2"])
    then obtain m where m: "blen (a div 2) = Suc m" by (cases "blen (a div 2)") auto
    have l: "2 ^ m \<le> a div 2" using ih m by simp
    have u: "a div 2 < 2 ^ Suc m" using ih m by simp
    have "2 * 2 ^ m \<le> a" using l by presburger
    moreover have "a < 2 * 2 ^ Suc m" using u by presburger
    ultimately show ?thesis by (simp add: b m)
  qed
qed

lemma blen_le: "0 \<le> a \<Longrightarrow> a < 2 ^ n \<Longrightarrow> blen a \<le> n"
proof (rule ccontr)
  assume a: "0 \<le> a" "a < 2 ^ n" and c: "\<not> blen a \<le> n"
  then have b: "n \<le> blen a - 1" by simp
  have "0 < a" using c a(1) by (cases "a = 0") (simp_all add: blen.simps [of 0])
  from blen_bounds [OF this] have "(2::int) ^ (blen a - 1) \<le> a" by simp
  moreover have "(2::int) ^ n \<le> 2 ^ (blen a - 1)" using b by (simp add: power_increasing)
  ultimately show False using a(2) by linarith
qed

lemma fl_dvd:
  assumes "2 ^ (blen \<bar>x\<bar> - 53) dvd \<bar>x\<bar>"
  shows "fl x = x"
proof -
  define q :: int where "q = 2 ^ (blen \<bar>x\<bar> - 53)"
  have q: "0 < q" by (simp add: q_def)
  have d: "q dvd \<bar>x\<bar>" using assms by (simp add: q_def)
  then have r: "\<bar>x\<bar> mod q = 0" by simp
  have k: "\<bar>x\<bar> div q * q = \<bar>x\<bar>" using d by simp
  have "fl x = sgn x * (\<bar>x\<bar> div q * q)"
    unfolding fl_def Let_def q_def [symmetric] r using q by simp
  then show ?thesis by (simp add: k mult_sgn_abs)
qed

lemma fl_exact:
  assumes "\<bar>x\<bar> \<le> 9007199254740992"
  shows "fl x = x"
proof -
  have a: "\<bar>x\<bar> \<le> 2 ^ 53" using assms by simp
  have "\<bar>x\<bar> < 2 ^ 54" using a by simp
  then have "blen \<bar>x\<bar> \<le> 54" by (intro blen_le) simp_all
  then consider "blen \<bar>x\<bar> - 53 = 0" | "blen \<bar>x\<bar> - 53 = 1" by linarith
  then show ?thesis
  proof cases
    case 1
    show ?thesis by (rule fl_dvd) (simp add: 1)
  next
    case 2
    then have b: "blen \<bar>x\<bar> = 54" by simp
    have "0 < \<bar>x\<bar>" using b by (cases "x = 0") (simp_all add: blen.simps [of 0])
    from blen_bounds [OF this] have "2 ^ 53 \<le> \<bar>x\<bar>" by (simp add: b)
    then have e: "\<bar>x\<bar> = 2 ^ 53" using a by simp
    have q: "(2::int) ^ (blen \<bar>x\<bar> - 53) = 2" by (simp only: 2 power_one_right)
    have "(2::int) dvd \<bar>x\<bar>" unfolding e by simp
    then show ?thesis by (intro fl_dvd) (simp only: q)
  qed
qed

lemma fl_minus: "fl (- x) = - fl x"
  by (simp add: fl_def Let_def)

lemma fl_big_pos:
  assumes "2 ^ 53 \<le> x"
  shows "2 ^ 53 \<le> fl x"
proof -
  have "(0::int) < 2 ^ 53" by simp
  then have p: "0 < x" using assms by linarith
  define n where "n = blen x"
  have bb: "2 ^ (n - 1) \<le> x" "x < 2 ^ n" using blen_bounds [OF p] by (simp_all add: n_def)
  have n: "54 \<le> n"
  proof (rule ccontr)
    assume "\<not> 54 \<le> n"
    then have "n \<le> 53" by simp
    then have "(2::int) ^ n \<le> 2 ^ 53" by (intro power_increasing) simp_all
    then show False using bb(2) assms by linarith
  qed
  define e where "e = n - 53"
  define q :: int where "q = 2 ^ e"
  have q: "0 < q" by (simp add: q_def)
  have ne: "n - 1 = 52 + e" using n by (simp add: e_def)
  have "(2::int) ^ (n - 1) = 2 ^ 52 * q" by (simp only: ne power_add q_def)
  then have "2 ^ 52 * q \<le> x" using bb(1) by simp
  then have "(2 ^ 52 * q) div q \<le> x div q" using q by (intro zdiv_mono1) simp_all
  then have k: "2 ^ 52 \<le> x div q" using q by simp
  define k' where "k' = (if 2 * (x mod q) < q \<or> (2 * (x mod q) = q \<and> even (x div q))
      then x div q else x div q + 1)"
  have k': "2 ^ 52 \<le> k'" using k by (simp add: k'_def)
  have f: "fl x = k' * q"
    using p by (simp add: fl_def Let_def n_def [symmetric] e_def [symmetric]
        q_def [symmetric] k'_def)
  have "2 ^ 52 * q \<le> k' * q" using k' q by simp
  moreover have "(2::int) ^ 53 \<le> 2 ^ 52 * q"
  proof -
    have "1 \<le> e" using n by (simp add: e_def)
    then have "(2::int) ^ 1 \<le> 2 ^ e" by (intro power_increasing) simp_all
    then show ?thesis by (simp add: q_def)
  qed
  ultimately show ?thesis using f by linarith
qed

lemma fl_big:
  assumes "9007199254740992 \<le> \<bar>x\<bar>"
  shows "9007199254740992 \<le> \<bar>fl x\<bar>"
proof (cases "0 \<le> x")
  case True
  then show ?thesis using fl_big_pos [of x] assms by simp
next
  case False
  then have "2 ^ 53 \<le> - x" using assms by simp
  from fl_big_pos [OF this] show ?thesis by (simp add: fl_minus)
qed

lemma round_num_exact:
  assumes "\<bar>x\<bar> \<le> 9007199254740992"
  shows "round_num x = Some x"
proof -
  have "(9007199254740992::int) < 2 ^ 1024" by simp
  then have "\<bar>x\<bar> < 2 ^ 1024" using assms by linarith
  then show ?thesis by (simp add: round_num_def fl_exact [OF assms])
qed

lemma beyond_round:
  assumes "b \<le> 9007199254740992" "b \<le> \<bar>x\<bar>"
  shows "beyond b (round_num x)"
proof (cases "\<bar>x\<bar> \<le> 9007199254740992")
  case True
  then show ?thesis using assms(2) by (simp add: round_num_exact beyond_def)
next
  case False
  then have "9007199254740992 \<le> \<bar>x\<bar>" by simp
  from fl_big [OF this] have "b \<le> \<bar>fl x\<bar>" using assms(1) by linarith
  then show ?thesis by (simp add: round_num_def beyond_def)
qed

lemma beyond_None [simp]: "beyond b None"
  by (simp add: beyond_def)

lemma beyond_add:
  assumes "beyond b v" "\<bar>c\<bar> \<le> k" "b - k \<le> 9007199254740992"
  shows "beyond (b - k) (num_add v (Some c))"
proof (cases v)
  case None
  then show ?thesis by simp
next
  case (Some x)
  then have "b \<le> \<bar>x\<bar>" using assms(1) by (simp add: beyond_def)
  then have "b - k \<le> \<bar>x + c\<bar>" using assms(2) by linarith
  then show ?thesis using Some beyond_round [OF assms(3)] by simp
qed

lemma beyond_mul:
  assumes "beyond b v" "0 \<le> b" "0 \<le> k" "b' \<le> b * k" "b' \<le> 9007199254740992"
  shows "beyond b' (num_mul v (Some k))"
proof (cases v)
  case None
  then show ?thesis by simp
next
  case (Some x)
  then have "b \<le> \<bar>x\<bar>" using assms(1) by (simp add: beyond_def)
  then have "b * k \<le> \<bar>x\<bar> * k" using assms(3) by (simp add: mult_right_mono)
  then have "b' \<le> \<bar>x * k\<bar>" using assms(3,4) by (simp add: abs_mult)
  then show ?thesis using Some beyond_round [OF assms(5)] by simp
qed

lemma beyond_TimeClip:
  assumes "beyond b v" "maxTime < b"
  shows "num_TimeClip v = None"
  using assms by (cases v) (simp_all add: beyond_def num_TimeClip_def TimeClip_def)

lemma TimeClip_round: "num_TimeClip (round_num x) = TimeClip x"
proof (cases "\<bar>x\<bar> \<le> 9007199254740992")
  case True
  then show ?thesis by (simp add: round_num_exact num_TimeClip_def)
next
  case False
  then have x: "9007199254740992 \<le> \<bar>x\<bar>" by simp
  have "beyond 9007199254740992 (round_num x)" by (rule beyond_round [OF _ x]) simp
  then have "num_TimeClip (round_num x) = None"
    by (rule beyond_TimeClip) (simp add: maxTime_def)
  moreover have "TimeClip x = None" using False by (simp add: TimeClip_def maxTime_def)
  ultimately show ?thesis by simp
qed

lemma TimeClip_beyond:
  assumes "8640000086400000 \<le> \<bar>d * msPerDay\<bar>" "\<bar>tm\<bar> < msPerDay"
  shows "TimeClip (MakeDate d tm) = None"
  using assms by (simp add: TimeClip_def MakeDate_def maxTime_def msPerDay_def)

lemma num_MakeDate_clip:
  assumes "\<bar>d * msPerDay\<bar> \<le> 9007199254740992 \<or> \<bar>tm\<bar> < msPerDay"
  shows "num_TimeClip (num_MakeDate (Some d) (Some tm)) = TimeClip (MakeDate d tm)"
proof (cases "\<bar>d * msPerDay\<bar> \<le> 9007199254740992")
  case True
  then show ?thesis
    by (simp add: num_MakeDate_def round_num_exact TimeClip_round MakeDate_def)
next
  case False
  then have tm: "\<bar>tm\<bar> < msPerDay" using assms by simp
  then have tm': "\<bar>tm\<bar> \<le> 86400000" by (simp add: msPerDay_def)
  have x: "9007199254740992 \<le> \<bar>d * msPerDay\<bar>" using False by simp
  have "beyond 9007199254740992 (num_mul (Some d) (Some msPerDay))"
    using beyond_round [OF _ x] by simp
  from beyond_add [OF this tm']
  have "beyond (9007199254740992 - 86400000) (num_add (num_mul (Some d) (Some msPerDay)) (Some tm))"
    by simp
  then have "num_TimeClip (num_MakeDate (Some d) (Some tm)) = None"
    unfolding num_MakeDate_def by (rule beyond_TimeClip) (simp add: maxTime_def)
  moreover have "TimeClip (MakeDate d tm) = None"
    using x tm by (intro TimeClip_beyond) simp_all
  ultimately show ?thesis by simp
qed

lemma beyond_day_clip:
  assumes "beyond 200000000 v" "\<bar>tm\<bar> < msPerDay"
  shows "num_TimeClip (num_MakeDate v (Some tm)) = None"
proof -
  have tm': "\<bar>tm\<bar> \<le> 86400000" using assms(2) by (simp add: msPerDay_def)
  have "beyond 9007199254740992 (num_mul v (Some msPerDay))"
    by (rule beyond_mul [OF assms(1)]) (simp_all add: msPerDay_def)
  from beyond_add [OF this tm']
  have "beyond (9007199254740992 - 86400000) (num_add (num_mul v (Some msPerDay)) (Some tm))"
    by simp
  then show ?thesis
    unfolding num_MakeDate_def by (rule beyond_TimeClip) (simp add: maxTime_def)
qed

lemma num_MakeTime_exact:
  assumes "\<bar>h\<bar> * msPerHour + \<bar>m\<bar> * msPerMinute + \<bar>s\<bar> * msPerSecond + \<bar>ms\<bar> \<le> 9007199254740992"
  shows "num_MakeTime (Some h) (Some m) (Some s) (Some ms) = Some (MakeTime h m s ms)"
proof -
  define a where "a = h * msPerHour"
  define b where "b = m * msPerMinute"
  define c where "c = s * msPerSecond"
  have abs: "\<bar>a\<bar> = \<bar>h\<bar> * msPerHour" "\<bar>b\<bar> = \<bar>m\<bar> * msPerMinute" "\<bar>c\<bar> = \<bar>s\<bar> * msPerSecond"
    by (simp_all add: a_def b_def c_def abs_mult msPerHour_def msPerMinute_def msPerSecond_def)
  have le: "\<bar>a\<bar> + \<bar>b\<bar> + \<bar>c\<bar> + \<bar>ms\<bar> \<le> 9007199254740992"
    using assms by (simp only: abs)
  have 1: "\<bar>a\<bar> \<le> 9007199254740992" "\<bar>b\<bar> \<le> 9007199254740992" "\<bar>c\<bar> \<le> 9007199254740992"
    using le by linarith+
  have 2: "\<bar>a + b\<bar> \<le> 9007199254740992" using le by linarith
  have 3: "\<bar>a + b + c\<bar> \<le> 9007199254740992" using le by linarith
  have 4: "\<bar>a + b + c + ms\<bar> \<le> 9007199254740992" using le by linarith
  have m1: "num_mul (Some h) (Some msPerHour) = Some a"
    using 1(1) by (simp add: a_def round_num_exact)
  have m2: "num_mul (Some m) (Some msPerMinute) = Some b"
    using 1(2) by (simp add: b_def round_num_exact)
  have m3: "num_mul (Some s) (Some msPerSecond) = Some c"
    using 1(3) by (simp add: c_def round_num_exact)
  have "num_MakeTime (Some h) (Some m) (Some s) (Some ms) = Some (a + b + c + ms)"
    unfolding num_MakeTime_def m1 m2 m3 by (simp add: round_num_exact 2 3 4)
  then show ?thesis by (simp add: MakeTime_def a_def b_def c_def)
qed

lemma Day_valid:
  assumes "\<bar>t\<bar> \<le> maxTime"
  shows "\<bar>Day t * msPerDay\<bar> \<le> 9007199254740992" "\<bar>Day t\<bar> \<le> 100000000"
proof -
  have e: "Day t * msPerDay + TimeWithinDay t = t" by (simp add: Day_def TimeWithinDay_def)
  have r: "0 \<le> TimeWithinDay t" "TimeWithinDay t < msPerDay"
    by (simp_all add: TimeWithinDay_def msPerDay_def)
  have "\<bar>Day t * msPerDay\<bar> \<le> maxTime + msPerDay" using e r assms by linarith
  then show "\<bar>Day t * msPerDay\<bar> \<le> 9007199254740992"
    by (simp add: maxTime_def msPerDay_def)
  have "- 8640000000000000 \<le> t" "t \<le> 8640000000000000" using assms by (simp_all add: maxTime_def)
  then have "(- 8640000000000000) div 86400000 \<le> t div (86400000::int)"
    "t div 86400000 \<le> 8640000000000000 div (86400000::int)"
    by (intro zdiv_mono1; simp)+
  then show "\<bar>Day t\<bar> \<le> 100000000" by (simp add: Day_def msPerDay_def)
qed

lemma setUTCHours_exact:
  assumes "\<bar>t\<bar> \<le> maxTime" "\<bar>x\<bar> * msPerHour \<le> 9007199168340992"
  shows "setUTCHours (Some x) (Some t) =
     TimeClip (MakeDate (Day t) (MakeTime x (MinFromTime t) (SecFromTime t) (msFromTime t)))"
proof -
  note r = time_fields_range [of t]
  have "\<bar>x\<bar> * msPerHour + \<bar>MinFromTime t\<bar> * msPerMinute + \<bar>SecFromTime t\<bar> * msPerSecond
      + \<bar>msFromTime t\<bar> \<le> 9007199254740992"
    using assms(2) r by (simp add: msPerMinute_def msPerSecond_def)
  from num_MakeTime_exact [OF this] show ?thesis
    by (simp add: setUTCHours_def num_MakeDate_clip Day_valid(1) [OF assms(1)])
qed

lemma setUTCMinutes_exact:
  assumes "\<bar>t\<bar> \<le> maxTime" "\<bar>x\<bar> * msPerMinute \<le> 9007199168340992"
  shows "setUTCMinutes (Some x) (Some t) =
     TimeClip (MakeDate (Day t) (MakeTime (HourFromTime t) x (SecFromTime t) (msFromTime t)))"
proof -
  note r = time_fields_range [of t]
  have "\<bar>HourFromTime t\<bar> * msPerHour + \<bar>x\<bar> * msPerMinute + \<bar>SecFromTime t\<bar> * msPerSecond
      + \<bar>msFromTime t\<bar> \<le> 9007199254740992"
    using assms(2) r by (simp add: msPerHour_def msPerSecond_def)
  from num_MakeTime_exact [OF this] show ?thesis
    by (simp add: setUTCMinutes_def num_MakeDate_clip Day_valid(1) [OF assms(1)])
qed

lemma setUTCSeconds_exact:
  assumes "\<bar>t\<bar> \<le> maxTime" "\<bar>x\<bar> * msPerSecond \<le> 9007199168340992"
  shows "setUTCSeconds (Some x) (Some t) =
     TimeClip (MakeDate (Day t) (MakeTime (HourFromTime t) (MinFromTime t) x (msFromTime t)))"
proof -
  note r = time_fields_range [of t]
  have "\<bar>HourFromTime t\<bar> * msPerHour + \<bar>MinFromTime t\<bar> * msPerMinute + \<bar>x\<bar> * msPerSecond
      + \<bar>msFromTime t\<bar> \<le> 9007199254740992"
    using assms(2) r by (simp add: msPerHour_def msPerMinute_def)
  from num_MakeTime_exact [OF this] show ?thesis
    by (simp add: setUTCSeconds_def num_MakeDate_clip Day_valid(1) [OF assms(1)])
qed

lemma setUTCMilliseconds_exact:
  assumes "\<bar>t\<bar> \<le> maxTime" "\<bar>x\<bar> \<le> 9007199168340992"
  shows "setUTCMilliseconds (Some x) (Some t) =
     TimeClip (MakeDate (Day t) (MakeTime (HourFromTime t) (MinFromTime t) (SecFromTime t) x))"
proof -
  note r = time_fields_range [of t]
  have "\<bar>HourFromTime t\<bar> * msPerHour + \<bar>MinFromTime t\<bar> * msPerMinute
      + \<bar>SecFromTime t\<bar> * msPerSecond + \<bar>x\<bar> \<le> 9007199254740992"
    using assms(2) r by (simp add: msPerHour_def msPerMinute_def msPerSecond_def)
  from num_MakeTime_exact [OF this] show ?thesis
    by (simp add: setUTCMilliseconds_def num_MakeDate_clip Day_valid(1) [OF assms(1)])
qed

lemma beyond_mono: "beyond b v \<Longrightarrow> b' \<le> b \<Longrightarrow> beyond b' v"
  by (cases v) (simp_all add: beyond_def)

lemma DaysBeforeMonth_range: "0 \<le> DaysBeforeMonth y m" "DaysBeforeMonth y m \<le> 335"
  by (simp_all add: DaysBeforeMonth_def)

lemma DayFromYear_linear:
  "400 * DayFromYear y \<le> 146097 * y - 287810501"
  "146097 * y - 287811596 \<le> 400 * DayFromYear y"
  using DayFromYear_bounds [of y] by (simp_all add: algebra_simps)

lemma month_start_small:
  assumes "\<bar>y\<bar> \<le> 10000000"
  shows "\<bar>DayFromYear y + DaysBeforeMonth y mn\<bar> \<le> 4000000000"
proof -
  have y: "- 10000000 \<le> y" "y \<le> 10000000" using assms by linarith+
  note l = DayFromYear_linear [of y]
  have "400 * DayFromYear y \<le> 1460970000000" using l(1) y(2) by linarith
  moreover have "- 1461260000000 \<le> 400 * DayFromYear y" using l(2) y(1) by linarith
  ultimately have "DayFromYear y \<le> 3652425000" "- 3653150000 \<le> DayFromYear y" by linarith+
  then show ?thesis using DaysBeforeMonth_range [of y mn] by linarith
qed

lemma month_start_big:
  assumes "10000000 \<le> \<bar>y\<bar>"
  shows "3000000000 \<le> \<bar>DayFromYear y + DaysBeforeMonth y mn\<bar>"
proof (cases "0 \<le> y")
  case True
  then have y: "10000000 \<le> y" using assms by linarith
  have "1460682188404 \<le> 400 * DayFromYear y" using DayFromYear_linear(2) [of y] y by linarith
  then have "3000000000 \<le> DayFromYear y" by linarith
  then show ?thesis using DaysBeforeMonth_range [of y mn] by linarith
next
  case False
  then have y: "y \<le> - 10000000" using assms by linarith
  have "400 * DayFromYear y \<le> - 1461257810501" using DayFromYear_linear(1) [of y] y by linarith
  then have "DayFromYear y \<le> - 3000000400" by linarith
  then show ?thesis using DaysBeforeMonth_range [of y mn] by linarith
qed

lemma YearFromTime_valid:
  assumes "\<bar>t\<bar> \<le> maxTime"
  shows "\<bar>YearFromTime t\<bar> \<le> 300000"
proof -
  define Y where "Y = YearFromTime t"
  have d: "- 100000000 \<le> Day t" "Day t \<le> 100000000" using Day_valid(2) [OF assms] by linarith+
  have a: "DayFromYear Y \<le> Day t" "Day t < DayFromYear (Y + 1)"
    using YearFromTime_bounds [of t] by (simp_all add: Y_def)
  have "146097 * Y - 287811596 \<le> 400 * DayFromYear Y" by (rule DayFromYear_linear(2))
  moreover have "400 * DayFromYear Y \<le> 40000000000" using a(1) d(2) by linarith
  ultimately have u: "Y \<le> 300000" by linarith
  have "400 * DayFromYear (Y + 1) \<le> 146097 * (Y + 1) - 287810501" by (rule DayFromYear_linear(1))
  then have "400 * DayFromYear (Y + 1) \<le> 146097 * Y - 287664404" by (simp add: algebra_simps)
  moreover have "- 40000000000 < 400 * DayFromYear (Y + 1)" using a(2) d(1) by linarith
  ultimately have "- 300000 \<le> Y" by linarith
  then show ?thesis using u by (simp add: Y_def)
qed

lemma num_MakeDay_clip:
  assumes tm: "0 \<le> tm" "tm < msPerDay"
    and c: "\<bar>y + m div 12\<bar> \<le> 10000000 \<or> \<bar>dt\<bar> \<le> 31"
  shows "num_TimeClip (num_MakeDate (num_MakeDay (Some y) (Some m) (Some dt)) (Some tm))
     = TimeClip (MakeDate (MakeDay y m dt) tm)"
proof -
  define ymE where "ymE = y + m div 12"
  define mn where "mn = m mod 12"
  define d0 where "d0 = DayFromYear ymE + DaysBeforeMonth ymE mn"
  have atm: "\<bar>tm\<bar> < msPerDay" using tm by simp
  have E: "MakeDay y m dt = d0 + dt - 1"
    by (simp add: MakeDay_def Let_def d0_def ymE_def mn_def)
  have far: "TimeClip (MakeDate dd tm) = None" if "200000000 \<le> \<bar>dd\<bar>" for dd
  proof -
    have "200000000 * msPerDay \<le> \<bar>dd\<bar> * msPerDay"
      using that by (intro mult_right_mono) (simp_all add: msPerDay_def)
    then have "8640000086400000 \<le> \<bar>dd * msPerDay\<bar>"
      by (simp add: abs_mult msPerDay_def)
    then show ?thesis using atm by (intro TimeClip_beyond)
  qed
  show ?thesis
  proof (cases "\<bar>ymE\<bar> \<le> 10000000")
    case True
    then have ym: "round_num (y + m div 12) = Some ymE"
      by (simp add: ymE_def round_num_exact)
    have d0s: "\<bar>d0\<bar> \<le> 4000000000" unfolding d0_def by (rule month_start_small [OF True])
    then have rd: "round_num d0 = Some d0" by (simp add: round_num_exact)
    have md: "num_MakeDay (Some y) (Some m) (Some dt) = num_add (round_num (d0 + dt)) (Some (- 1))"
      by (simp add: num_MakeDay_def ym Let_def mn_def [symmetric] d0_def [symmetric] rd)
    show ?thesis
    proof (cases "\<bar>d0 + dt\<bar> \<le> 9007199254740991")
      case True
      then have "round_num (d0 + dt) = Some (d0 + dt)" by (simp add: round_num_exact)
      moreover have "round_num (d0 + dt - 1) = Some (d0 + dt - 1)"
        using True by (intro round_num_exact) linarith
      ultimately have "num_MakeDay (Some y) (Some m) (Some dt) = Some (MakeDay y m dt)"
        by (simp add: md E)
      then show ?thesis using atm by (simp add: num_MakeDate_clip)
    next
      case False
      then have b: "9007199254740992 \<le> \<bar>d0 + dt\<bar>" by simp
      have "beyond 9007199254740992 (round_num (d0 + dt))"
        by (rule beyond_round [OF _ b]) simp
      from beyond_add [OF this, of "- 1" 1]
      have "beyond (9007199254740992 - 1) (num_MakeDay (Some y) (Some m) (Some dt))"
        by (simp add: md)
      then have "beyond 200000000 (num_MakeDay (Some y) (Some m) (Some dt))"
        by (rule beyond_mono) simp
      from beyond_day_clip [OF this atm]
      have l: "num_TimeClip (num_MakeDate (num_MakeDay (Some y) (Some m) (Some dt)) (Some tm)) = None" .
      have "200000000 \<le> \<bar>d0 + dt - 1\<bar>" using b by linarith
      from far [OF this] show ?thesis using l by (simp add: E)
    qed
  next
    case False
    then have big: "10000000 \<le> \<bar>ymE\<bar>" by simp
    have dt: "\<bar>dt\<bar> \<le> 31" using c False by (simp add: ymE_def)
    have "3000000000 \<le> \<bar>d0\<bar>" unfolding d0_def by (rule month_start_big [OF big])
    then have "200000000 \<le> \<bar>d0 + dt - 1\<bar>" using dt by linarith
    from far [OF this] have r: "TimeClip (MakeDate (MakeDay y m dt) tm) = None" by (simp add: E)
    have "beyond 10000000 (round_num (y + m div 12))"
      using beyond_round [OF _ big] by (simp add: ymE_def)
    then consider "round_num (y + m div 12) = None"
      | ym where "round_num (y + m div 12) = Some ym" "10000000 \<le> \<bar>ym\<bar>"
      by (cases "round_num (y + m div 12)") (auto simp: beyond_def)
    then have "num_TimeClip (num_MakeDate (num_MakeDay (Some y) (Some m) (Some dt)) (Some tm)) = None"
    proof cases
      case 1
      then show ?thesis by (simp add: num_MakeDay_def num_MakeDate_def num_TimeClip_def)
    next
      case 2
      define d1 where "d1 = DayFromYear ym + DaysBeforeMonth ym mn"
      have b1: "3000000000 \<le> \<bar>d1\<bar>" unfolding d1_def by (rule month_start_big [OF 2(2)])
      have md: "num_MakeDay (Some y) (Some m) (Some dt)
          = num_add (num_add (round_num d1) (Some dt)) (Some (- 1))"
        by (simp add: num_MakeDay_def 2(1) Let_def mn_def [symmetric] d1_def [symmetric])
      have "beyond 3000000000 (round_num d1)" by (rule beyond_round [OF _ b1]) simp
      from beyond_add [OF this dt]
      have "beyond (3000000000 - 31) (num_add (round_num d1) (Some dt))" by simp
      from beyond_add [OF this, of "- 1" 1]
      have "beyond (3000000000 - 31 - 1) (num_MakeDay (Some y) (Some m) (Some dt))"
        by (simp add: md)
      then have "beyond 200000000 (num_MakeDay (Some y) (Some m) (Some dt))"
        by (rule beyond_mono) simp
      from beyond_day_clip [OF this atm] show ?thesis .
    qed
    then show ?thesis using r by simp
  qed
qed

lemma TimeWithinDay_range: "0 \<le> TimeWithinDay t" "TimeWithinDay t < msPerDay"
  by (simp_all add: TimeWithinDay_def msPerDay_def)

lemma DateFromTime_abs: "\<bar>DateFromTime t\<bar> \<le> 31"
proof -
  have "DaysInMonth y m \<le> 31" for y m by (simp add: DaysInMonth_def)
  from this [of "YearFromTime t" "MonthFromTime t"] show ?thesis
    using fields_range(3,4) [of t] by linarith
qed

lemma setUTCDate_exact:
  assumes "\<bar>t\<bar> \<le> maxTime"
  shows "setUTCDate (Some dt) (Some t) =
     TimeClip (MakeDate (MakeDay (YearFromTime t) (MonthFromTime t) dt) (TimeWithinDay t))"
proof -
  have "MonthFromTime t div 12 = 0" using fields_range(1,2) [of t] by simp
  then have "\<bar>YearFromTime t + MonthFromTime t div 12\<bar> \<le> 10000000"
    using YearFromTime_valid [OF assms] by simp
  then show ?thesis
    by (simp add: setUTCDate_def num_MakeDay_clip [OF TimeWithinDay_range])
qed

lemma setUTCMonth_exact:
  "setUTCMonth (Some m) (Some t) =
     TimeClip (MakeDate (MakeDay (YearFromTime t) m (DateFromTime t)) (TimeWithinDay t))"
  by (simp add: setUTCMonth_def num_MakeDay_clip [OF TimeWithinDay_range] DateFromTime_abs)

lemma setUTCFullYear_exact:
  "setUTCFullYear (Some y) tv =
     (let t = (case tv of None \<Rightarrow> 0 | Some t0 \<Rightarrow> t0)
      in TimeClip (MakeDate (MakeDay y (MonthFromTime t) (DateFromTime t)) (TimeWithinDay t)))"
  by (simp add: setUTCFullYear_def Let_def num_MakeDay_clip [OF TimeWithinDay_range]
      DateFromTime_abs)

lemma setter_None:
  "setUTCMonth a None = None" "setUTCDate a None = None" "setUTCHours a None = None"
  "setUTCMinutes a None = None" "setUTCSeconds a None = None" "setUTCMilliseconds a None = None"
  by (simp_all add: setUTCMonth_def setUTCDate_def setUTCHours_def setUTCMinutes_def
      setUTCSeconds_def setUTCMilliseconds_def)

lemma setter_NaN:
  "setUTCFullYear None tv = None" "setUTCMonth None tv = None" "setUTCDate None tv = None"
  "setUTCHours None tv = None" "setUTCMinutes None tv = None" "setUTCSeconds None tv = None"
  "setUTCMilliseconds None tv = None"
proof -
  have d: "num_MakeDay None m d = None" "num_MakeDay (Some y) None d' = None"
    "num_MakeDay y' m' None = None" for y m d d' y' m'
    by (simp_all add: num_MakeDay_def Let_def split: option.splits)
  have t: "num_MakeTime None b c d = None" "num_MakeTime a None c d = None"
    "num_MakeTime a b None d = None" "num_MakeTime a b c None = None" for a b c d
    by (simp_all add: num_MakeTime_def)
  have e: "num_TimeClip (num_MakeDate None x) = None" "num_TimeClip (num_MakeDate x None) = None"
    for x
    by (simp_all add: num_MakeDate_def num_TimeClip_def)
  show "setUTCFullYear None tv = None" by (simp add: setUTCFullYear_def Let_def d e)
  show "setUTCMonth None tv = None" by (cases tv) (simp_all add: setUTCMonth_def d e)
  show "setUTCDate None tv = None" by (cases tv) (simp_all add: setUTCDate_def d e)
  show "setUTCHours None tv = None" by (cases tv) (simp_all add: setUTCHours_def t e)
  show "setUTCMinutes None tv = None" by (cases tv) (simp_all add: setUTCMinutes_def t e)
  show "setUTCSeconds None tv = None" by (cases tv) (simp_all add: setUTCSeconds_def t e)
  show "setUTCMilliseconds None tv = None"
    by (cases tv) (simp_all add: setUTCMilliseconds_def t e)
qed

lemma month_plus_one: "round_num (MonthFromTime t + 1) = Some (MonthFromTime t + 1)"
  using fields_range(1,2) [of t] by (intro round_num_exact) linarith

section \<open>Fields of an instant and truncation of a time value\<close>

lemma validFields_fieldsOf: "validFields (fieldsOf t)"
  unfolding validFields_def fieldsOf_def
  using fields_range [of t] time_fields_range [of t] by simp

lemma fromFields_fieldsOf: "fromFields (fieldsOf t) = t"
proof -
  have e: "Day t * msPerDay + TimeWithinDay t = t"
    by (simp add: Day_def TimeWithinDay_def)
  have "fromFields (fieldsOf t) = MakeDate (Day t) (TimeWithinDay t)"
    by (simp add: fromFields_def fieldsOf_def fields_range(5) [symmetric]
        time_decomp [symmetric])
  then show ?thesis using e by (simp add: MakeDate_def)
qed

lemma fieldsOf_fromFields:
  assumes "validFields f"
  shows "fieldsOf (fromFields f) = f"
proof -
  define tw where "tw = MakeTime (fHours f) (fMinutes f) (fSeconds f) (fMilliseconds f)"
  define dd where "dd = MakeDay (fYear f) (fMonth f) (fDate f)"
  have v: "0 \<le> fMonth f" "fMonth f \<le> 11" "1 \<le> fDate f"
    "fDate f \<le> DaysInMonth (fYear f) (fMonth f)"
    "0 \<le> fHours f" "fHours f < 24" "0 \<le> fMinutes f" "fMinutes f < 60"
    "0 \<le> fSeconds f" "fSeconds f < 60" "0 \<le> fMilliseconds f" "fMilliseconds f < 1000"
    using assms by (simp_all add: validFields_def)
  have r: "0 \<le> tw" "tw < msPerDay"
    unfolding tw_def using MakeTime_range [OF v(5-12)] by simp_all
  have t: "fromFields f = MakeDate dd tw" by (simp add: fromFields_def dd_def tw_def)
  have d: "Day (fromFields f) = MakeDay (fYear f) (fMonth f) (fDate f)"
    unfolding t using Day_MakeDate(1) [OF r] by (simp add: dd_def)
  have t2: "fromFields f = MakeDate dd (MakeTime (fHours f) (fMinutes f) (fSeconds f) (fMilliseconds f))"
    by (simp add: t tw_def)
  show ?thesis
    unfolding fieldsOf_def
    using fields_of_day [OF v(1-4) d] time_fields [OF v(5-12) t2] by simp
qed

lemma Day_fromFields:
  "Day t = MakeDay (YearFromTime t) (MonthFromTime t) (DateFromTime t)"
  by (rule fields_range(5))

lemma setUTCMonth_fields:
  "setUTCMonth (Some m) (Some t) = TimeClip (fromFields ((fieldsOf t)\<lparr>fMonth := m\<rparr>))"
  by (simp add: setUTCMonth_exact fromFields_def fieldsOf_def time_decomp)

lemma setUTCDate_fields:
  assumes "\<bar>t\<bar> \<le> maxTime"
  shows "setUTCDate (Some d) (Some t) = TimeClip (fromFields ((fieldsOf t)\<lparr>fDate := d\<rparr>))"
  by (simp add: setUTCDate_exact [OF assms] fromFields_def fieldsOf_def time_decomp)

lemma setUTCFullYear_fields:
  "setUTCFullYear (Some y) (Some t) = TimeClip (fromFields ((fieldsOf t)\<lparr>fYear := y\<rparr>))"
  by (simp add: setUTCFullYear_exact fromFields_def fieldsOf_def time_decomp)

lemma setUTCHours_fields:
  assumes "\<bar>t\<bar> \<le> maxTime" "\<bar>x\<bar> * msPerHour \<le> 9007199168340992"
  shows "setUTCHours (Some x) (Some t) = TimeClip (fromFields ((fieldsOf t)\<lparr>fHours := x\<rparr>))"
  by (simp add: setUTCHours_exact [OF assms] fromFields_def fieldsOf_def fields_range(5))

lemma setUTCMinutes_fields:
  assumes "\<bar>t\<bar> \<le> maxTime" "\<bar>x\<bar> * msPerMinute \<le> 9007199168340992"
  shows "setUTCMinutes (Some x) (Some t) =
     TimeClip (fromFields ((fieldsOf t)\<lparr>fMinutes := x\<rparr>))"
  by (simp add: setUTCMinutes_exact [OF assms] fromFields_def fieldsOf_def fields_range(5))

lemma setUTCSeconds_fields:
  assumes "\<bar>t\<bar> \<le> maxTime" "\<bar>x\<bar> * msPerSecond \<le> 9007199168340992"
  shows "setUTCSeconds (Some x) (Some t) =
     TimeClip (fromFields ((fieldsOf t)\<lparr>fSeconds := x\<rparr>))"
  by (simp add: setUTCSeconds_exact [OF assms] fromFields_def fieldsOf_def fields_range(5))

lemma setUTCMilliseconds_fields:
  assumes "\<bar>t\<bar> \<le> maxTime" "\<bar>x\<bar> \<le> 9007199168340992"
  shows "setUTCMilliseconds (Some x) (Some t) =
     TimeClip (fromFields ((fieldsOf t)\<lparr>fMilliseconds := x\<rparr>))"
  by (simp add: setUTCMilliseconds_exact [OF assms] fromFields_def fieldsOf_def fields_range(5))

lemma truncValue_unfold:
  "truncValue p tv =
     (let v0 = (if 0 \<le> p then tv else setUTCFullYear (Some 0) tv);
          v1 = (if 1 \<le> p then v0 else setUTCMonth (Some 0) v0);
          v2 = (if 2 \<le> p then v1 else setUTCDate (Some 1) v1);
          v3 = (if 3 \<le> p then v2 else setUTCHours (Some 0) v2);
          v4 = (if 4 \<le> p then v3 else setUTCMinutes (Some 0) v3);
          v5 = (if 5 \<le> p then v4 else setUTCSeconds (Some 0) v4)
      in if 6 \<le> p then v5 else setUTCMilliseconds (Some 0) v5)"
  by (simp add: truncValue_def truncValueStep_def truncPrecisions_def Let_def)

lemma DaysInMonth_le_31: "DaysInMonth y m \<le> 31"
  by (simp add: DaysInMonth_def)

lemma DaysBeforeMonth_nonneg: "0 \<le> DaysBeforeMonth y m"
  by (simp add: DaysBeforeMonth_def)

lemma fromFields_linear:
  assumes "0 \<le> fMonth f" "fMonth f \<le> 11"
  shows "fromFields f =
    (DayFromYear (fYear f) + DaysBeforeMonth (fYear f) (fMonth f) + fDate f - 1) * 86400000
     + fHours f * 3600000 + fMinutes f * 60000 + fSeconds f * 1000 + fMilliseconds f"
  by (simp add: fromFields_def MakeDate_def MakeTime_def MakeDay_in_year [OF assms]
      msPerDay_def msPerHour_def msPerMinute_def msPerSecond_def)

lemma zero_ms_le:
  "fromFields ((fieldsOf t)\<lparr>fMilliseconds := 0\<rparr>) \<le> t"
proof -
  have v: "validFields (fieldsOf t)" by (rule validFields_fieldsOf)
  have "fromFields ((fieldsOf t)\<lparr>fMilliseconds := 0\<rparr>) \<le> fromFields (fieldsOf t)"
    using v by (simp add: fromFields_def MakeDate_def MakeTime_def validFields_def)
  then show ?thesis by (simp add: fromFields_fieldsOf)
qed

lemma zero_sec_le:
  "fromFields ((fieldsOf t)\<lparr>fSeconds := 0\<rparr>) \<le> t"
proof -
  have v: "validFields (fieldsOf t)" by (rule validFields_fieldsOf)
  have "fromFields ((fieldsOf t)\<lparr>fSeconds := 0\<rparr>) \<le> fromFields (fieldsOf t)"
    using v by (simp add: fromFields_def MakeDate_def MakeTime_def validFields_def
        msPerSecond_def)
  then show ?thesis by (simp add: fromFields_fieldsOf)
qed

lemma zero_min_le:
  "fromFields ((fieldsOf t)\<lparr>fMinutes := 0\<rparr>) \<le> t"
proof -
  have v: "validFields (fieldsOf t)" by (rule validFields_fieldsOf)
  have "fromFields ((fieldsOf t)\<lparr>fMinutes := 0\<rparr>) \<le> fromFields (fieldsOf t)"
    using v by (simp add: fromFields_def MakeDate_def MakeTime_def validFields_def
        msPerMinute_def)
  then show ?thesis by (simp add: fromFields_fieldsOf)
qed

lemma zero_hours_le:
  "fromFields ((fieldsOf t)\<lparr>fHours := 0\<rparr>) \<le> t"
proof -
  have v: "validFields (fieldsOf t)" by (rule validFields_fieldsOf)
  have "fromFields ((fieldsOf t)\<lparr>fHours := 0\<rparr>) \<le> fromFields (fieldsOf t)"
    using v by (simp add: fromFields_def MakeDate_def MakeTime_def validFields_def
        msPerHour_def)
  then show ?thesis by (simp add: fromFields_fieldsOf)
qed

lemma one_date_le:
  "fromFields ((fieldsOf t)\<lparr>fDate := 1\<rparr>) \<le> t"
proof -
  have v: "validFields (fieldsOf t)" by (rule validFields_fieldsOf)
  have "fromFields ((fieldsOf t)\<lparr>fDate := 1\<rparr>) \<le> fromFields (fieldsOf t)"
    using v by (simp add: fromFields_def MakeDate_def MakeDay_def validFields_def
        msPerDay_def Let_def)
  then show ?thesis by (simp add: fromFields_fieldsOf)
qed

lemma zero_month_le:
  "fromFields ((fieldsOf t)\<lparr>fMonth := 0\<rparr>) \<le> t"
proof -
  have v: "validFields (fieldsOf t)" by (rule validFields_fieldsOf)
  then have m: "0 \<le> fMonth (fieldsOf t)" "fMonth (fieldsOf t) \<le> 11"
    by (simp_all add: validFields_def)
  have "fromFields ((fieldsOf t)\<lparr>fMonth := 0\<rparr>) \<le> fromFields (fieldsOf t)"
    using DaysBeforeMonth_nonneg [of "fYear (fieldsOf t)" "fMonth (fieldsOf t)"]
    by (simp add: fromFields_linear m) (simp add: DaysBeforeMonth_def)
  then show ?thesis by (simp add: fromFields_fieldsOf)
qed

lemma TimeClip_below: "x \<le> maxTime \<Longrightarrow> y \<le> x \<Longrightarrow> TimeClip x = None \<Longrightarrow> TimeClip y = None"
  by (auto simp: TimeClip_def maxTime_def split: if_splits)

lemma TimeClip_cases: "TimeClip x = None \<or> TimeClip x = Some x"
  by (simp add: TimeClip_def)

lemma chain_step:
  assumes x: "x \<le> maxTime"
    and sN: "setter None = None"
    and sS: "\<bar>x\<bar> \<le> maxTime \<Longrightarrow> setter (Some x) = TimeClip x1"
    and le: "x1 \<le> x"
    and IH: "\<And>z. z \<le> maxTime \<Longrightarrow> tr (TimeClip z) = TimeClip (g z) \<and> g z \<le> z"
    and trN: "tr None = None"
  shows "tr (setter (TimeClip x)) = TimeClip (g x1) \<and> g x1 \<le> x"
proof -
  have x1: "x1 \<le> maxTime" using x le by linarith
  have g: "g x1 \<le> x1" using IH [OF x1] by simp
  show ?thesis
  proof (cases "TimeClip x = None")
    case True
    have "TimeClip x1 = None" by (rule TimeClip_below [OF x le True])
    then have "TimeClip (g x1) = None" using TimeClip_below [OF x1 g] by simp
    then show ?thesis using True sN trN g le by simp
  next
    case False
    then have c: "TimeClip x = Some x" using TimeClip_cases [of x] by auto
    then have "\<bar>x\<bar> \<le> maxTime" by (simp add: TimeClip_def split: if_splits)
    from sS [OF this] show ?thesis using c IH [OF x1] le by simp
  qed
qed


lemma truncValue_ge6: "6 \<le> p \<Longrightarrow> truncValue p tv = tv"
  by (simp add: truncValue_unfold)

lemma truncValue_5: "truncValue 5 tv = setUTCMilliseconds (Some 0) tv"
  by (simp add: truncValue_unfold)

lemma truncValue_4: "truncValue 4 tv = truncValue 5 (setUTCSeconds (Some 0) tv)"
  by (simp add: truncValue_unfold)

lemma truncValue_3: "truncValue 3 tv = truncValue 4 (setUTCMinutes (Some 0) tv)"
  by (simp add: truncValue_unfold)

lemma truncValue_2: "truncValue 2 tv = truncValue 3 (setUTCHours (Some 0) tv)"
  by (simp add: truncValue_unfold)

lemma truncValue_1: "truncValue 1 tv = truncValue 2 (setUTCDate (Some 1) tv)"
  by (simp add: truncValue_unfold)

lemma truncValue_0: "truncValue 0 tv = truncValue 1 (setUTCMonth (Some 0) tv)"
  by (simp add: truncValue_unfold)

lemma truncValue_neg: "p < 0 \<Longrightarrow> truncValue p tv = truncValue 0 (setUTCFullYear (Some 0) tv)"
  by (simp add: truncValue_unfold)

lemma truncValue_None: "0 \<le> p \<Longrightarrow> truncValue p None = None"
  by (simp add: truncValue_unfold setter_None)

lemma zeroBelow_ge6: "6 \<le> p \<Longrightarrow> zeroBelow p f = f"
  by (cases f) (simp add: zeroBelow_def)

lemma zeroBelow_5: "zeroBelow 5 f = f\<lparr>fMilliseconds := 0\<rparr>"
  by (cases f) (simp add: zeroBelow_def)

lemma zeroBelow_4: "zeroBelow 4 f = zeroBelow 5 (f\<lparr>fSeconds := 0\<rparr>)"
  by (cases f) (simp add: zeroBelow_def)

lemma zeroBelow_3: "zeroBelow 3 f = zeroBelow 4 (f\<lparr>fMinutes := 0\<rparr>)"
  by (cases f) (simp add: zeroBelow_def)

lemma zeroBelow_2: "zeroBelow 2 f = zeroBelow 3 (f\<lparr>fHours := 0\<rparr>)"
  by (cases f) (simp add: zeroBelow_def)

lemma zeroBelow_1: "zeroBelow 1 f = zeroBelow 2 (f\<lparr>fDate := 1\<rparr>)"
  by (cases f) (simp add: zeroBelow_def)

lemma zeroBelow_0: "zeroBelow 0 f = zeroBelow 1 (f\<lparr>fMonth := 0\<rparr>)"
  by (cases f) (simp add: zeroBelow_def)

lemma zeroBelow_neg: "p < 0 \<Longrightarrow> zeroBelow p f = zeroBelow 0 (f\<lparr>fYear := 0\<rparr>)"
  by (cases f) (simp add: zeroBelow_def)

lemma instant_6: "6 \<le> p \<Longrightarrow> instantAtPrecision p t = t"
  by (simp add: instantAtPrecision_def zeroBelow_ge6 fromFields_fieldsOf)

lemma trunc_5:
  assumes "x \<le> maxTime"
  shows "truncValue 5 (TimeClip x) = TimeClip (instantAtPrecision 5 x) \<and> instantAtPrecision 5 x \<le> x"
proof -
  define x1 where "x1 = fromFields ((fieldsOf x)\<lparr>fMilliseconds := 0\<rparr>)"
  have i: "instantAtPrecision 5 x = x1"
    by (simp add: instantAtPrecision_def zeroBelow_5 x1_def)
  have le: "x1 \<le> x" unfolding x1_def by (rule zero_ms_le)
  have sN: "setUTCMilliseconds (Some 0) None = None" by (rule setter_None)
  have sS: "\<bar>x\<bar> \<le> maxTime \<Longrightarrow> setUTCMilliseconds (Some 0) (Some x) = TimeClip x1"
    by (simp add: setUTCMilliseconds_fields x1_def)
  have "id (setUTCMilliseconds (Some 0) (TimeClip x)) = TimeClip (id x1) \<and> id x1 \<le> x"
    by (rule chain_step [where setter = "setUTCMilliseconds (Some 0)" and tr = id and g = id,
          OF assms sN sS le]) simp_all
  then show ?thesis by (simp add: truncValue_5 i)
qed

lemma trunc_4:
  assumes "x \<le> maxTime"
  shows "truncValue 4 (TimeClip x) = TimeClip (instantAtPrecision 4 x) \<and> instantAtPrecision 4 x \<le> x"
proof -
  define x1 where "x1 = fromFields ((fieldsOf x)\<lparr>fSeconds := 0\<rparr>)"
  have v: "validFields ((fieldsOf x)\<lparr>fSeconds := 0\<rparr>)"
    using validFields_fieldsOf [of x] by (simp add: validFields_def)
  have f: "fieldsOf x1 = (fieldsOf x)\<lparr>fSeconds := 0\<rparr>"
    unfolding x1_def by (rule fieldsOf_fromFields [OF v])
  have i: "instantAtPrecision 4 x = instantAtPrecision 5 x1"
    by (simp add: instantAtPrecision_def zeroBelow_4 f)
  have le: "x1 \<le> x" unfolding x1_def by (rule zero_sec_le)
  have sN: "setUTCSeconds (Some 0) None = None" by (rule setter_None)
  have sS: "\<bar>x\<bar> \<le> maxTime \<Longrightarrow> setUTCSeconds (Some 0) (Some x) = TimeClip x1"
    by (simp add: setUTCSeconds_fields x1_def)
  have trN: "truncValue 5 None = None" by (simp add: truncValue_None)
  have "truncValue 5 (setUTCSeconds (Some 0) (TimeClip x)) = TimeClip (instantAtPrecision 5 x1)
      \<and> instantAtPrecision 5 x1 \<le> x"
    by (rule chain_step [where setter = "setUTCSeconds (Some 0)" and tr = "truncValue 5" and g = "instantAtPrecision 5",
          OF assms sN sS le trunc_5 trN])
  then show ?thesis by (simp add: truncValue_4 i)
qed

lemma trunc_3:
  assumes "x \<le> maxTime"
  shows "truncValue 3 (TimeClip x) = TimeClip (instantAtPrecision 3 x) \<and> instantAtPrecision 3 x \<le> x"
proof -
  define x1 where "x1 = fromFields ((fieldsOf x)\<lparr>fMinutes := 0\<rparr>)"
  have v: "validFields ((fieldsOf x)\<lparr>fMinutes := 0\<rparr>)"
    using validFields_fieldsOf [of x] by (simp add: validFields_def)
  have f: "fieldsOf x1 = (fieldsOf x)\<lparr>fMinutes := 0\<rparr>"
    unfolding x1_def by (rule fieldsOf_fromFields [OF v])
  have i: "instantAtPrecision 3 x = instantAtPrecision 4 x1"
    by (simp add: instantAtPrecision_def zeroBelow_3 f)
  have le: "x1 \<le> x" unfolding x1_def by (rule zero_min_le)
  have sN: "setUTCMinutes (Some 0) None = None" by (rule setter_None)
  have sS: "\<bar>x\<bar> \<le> maxTime \<Longrightarrow> setUTCMinutes (Some 0) (Some x) = TimeClip x1"
    by (simp add: setUTCMinutes_fields x1_def)
  have trN: "truncValue 4 None = None" by (simp add: truncValue_None)
  have "truncValue 4 (setUTCMinutes (Some 0) (TimeClip x)) = TimeClip (instantAtPrecision 4 x1)
      \<and> instantAtPrecision 4 x1 \<le> x"
    by (rule chain_step [where setter = "setUTCMinutes (Some 0)" and tr = "truncValue 4" and g = "instantAtPrecision 4",
          OF assms sN sS le trunc_4 trN])
  then show ?thesis by (simp add: truncValue_3 i)
qed

lemma trunc_2:
  assumes "x \<le> maxTime"
  shows "truncValue 2 (TimeClip x) = TimeClip (instantAtPrecision 2 x) \<and> instantAtPrecision 2 x \<le> x"
proof -
  define x1 where "x1 = fromFields ((fieldsOf x)\<lparr>fHours := 0\<rparr>)"
  have v: "validFields ((fieldsOf x)\<lparr>fHours := 0\<rparr>)"
    using validFields_fieldsOf [of x] by (simp add: validFields_def)
  have f: "fieldsOf x1 = (fieldsOf x)\<lparr>fHours := 0\<rparr>"
    unfolding x1_def by (rule fieldsOf_fromFields [OF v])
  have i: "instantAtPrecision 2 x = instantAtPrecision 3 x1"
    by (simp add: instantAtPrecision_def zeroBelow_2 f)
  have le: "x1 \<le> x" unfolding x1_def by (rule zero_hours_le)
  have sN: "setUTCHours (Some 0) None = None" by (rule setter_None)
  have sS: "\<bar>x\<bar> \<le> maxTime \<Longrightarrow> setUTCHours (Some 0) (Some x) = TimeClip x1"
    by (simp add: setUTCHours_fields x1_def)
  have trN: "truncValue 3 None = None" by (simp add: truncValue_None)
  have "truncValue 3 (setUTCHours (Some 0) (TimeClip x)) = TimeClip (instantAtPrecision 3 x1)
      \<and> instantAtPrecision 3 x1 \<le> x"
    by (rule chain_step [where setter = "setUTCHours (Some 0)" and tr = "truncValue 3" and g = "instantAtPrecision 3",
          OF assms sN sS le trunc_3 trN])
  then show ?thesis by (simp add: truncValue_2 i)
qed

lemma trunc_1:
  assumes "x \<le> maxTime"
  shows "truncValue 1 (TimeClip x) = TimeClip (instantAtPrecision 1 x) \<and> instantAtPrecision 1 x \<le> x"
proof -
  define x1 where "x1 = fromFields ((fieldsOf x)\<lparr>fDate := 1\<rparr>)"
  have v: "validFields ((fieldsOf x)\<lparr>fDate := 1\<rparr>)"
    using validFields_fieldsOf [of x] by (simp add: validFields_def)
  have f: "fieldsOf x1 = (fieldsOf x)\<lparr>fDate := 1\<rparr>"
    unfolding x1_def by (rule fieldsOf_fromFields [OF v])
  have i: "instantAtPrecision 1 x = instantAtPrecision 2 x1"
    by (simp add: instantAtPrecision_def zeroBelow_1 f)
  have le: "x1 \<le> x" unfolding x1_def by (rule one_date_le)
  have sN: "setUTCDate (Some 1) None = None" by (rule setter_None)
  have sS: "\<bar>x\<bar> \<le> maxTime \<Longrightarrow> setUTCDate (Some 1) (Some x) = TimeClip x1"
    by (simp add: setUTCDate_fields x1_def)
  have trN: "truncValue 2 None = None" by (simp add: truncValue_None)
  have "truncValue 2 (setUTCDate (Some 1) (TimeClip x)) = TimeClip (instantAtPrecision 2 x1)
      \<and> instantAtPrecision 2 x1 \<le> x"
    by (rule chain_step [where setter = "setUTCDate (Some 1)" and tr = "truncValue 2" and g = "instantAtPrecision 2",
          OF assms sN sS le trunc_2 trN])
  then show ?thesis by (simp add: truncValue_1 i)
qed

lemma trunc_0:
  assumes "x \<le> maxTime"
  shows "truncValue 0 (TimeClip x) = TimeClip (instantAtPrecision 0 x) \<and> instantAtPrecision 0 x \<le> x"
proof -
  define x1 where "x1 = fromFields ((fieldsOf x)\<lparr>fMonth := 0\<rparr>)"
  have v: "validFields ((fieldsOf x)\<lparr>fMonth := 0\<rparr>)"
    using validFields_fieldsOf [of x] DaysInMonth_le_31 [of "YearFromTime x" "MonthFromTime x"]
    by (simp add: validFields_def fieldsOf_def) (simp add: DaysInMonth_def)
  have f: "fieldsOf x1 = (fieldsOf x)\<lparr>fMonth := 0\<rparr>"
    unfolding x1_def by (rule fieldsOf_fromFields [OF v])
  have i: "instantAtPrecision 0 x = instantAtPrecision 1 x1"
    by (simp add: instantAtPrecision_def zeroBelow_0 f)
  have le: "x1 \<le> x" unfolding x1_def by (rule zero_month_le)
  have sN: "setUTCMonth (Some 0) None = None" by (rule setter_None)
  have sS: "\<bar>x\<bar> \<le> maxTime \<Longrightarrow> setUTCMonth (Some 0) (Some x) = TimeClip x1"
    by (simp add: setUTCMonth_fields x1_def)
  have trN: "truncValue 1 None = None" by (simp add: truncValue_None)
  have "truncValue 1 (setUTCMonth (Some 0) (TimeClip x)) = TimeClip (instantAtPrecision 1 x1)
      \<and> instantAtPrecision 1 x1 \<le> x"
    by (rule chain_step [where setter = "setUTCMonth (Some 0)" and tr = "truncValue 1" and g = "instantAtPrecision 1",
          OF assms sN sS le trunc_1 trN])
  then show ?thesis by (simp add: truncValue_0 i)
qed

lemma validFields_zeroBelow:
  assumes "validFields f"
  shows "validFields (zeroBelow p f)"
proof -
  have "1 \<le> DaysInMonth y m" for y m by (simp add: DaysInMonth_def)
  then show ?thesis using assms by (simp add: validFields_def zeroBelow_def)
qed

lemma fieldsOf_instant: "fieldsOf (instantAtPrecision p x) = zeroBelow p (fieldsOf x)"
  unfolding instantAtPrecision_def
  by (rule fieldsOf_fromFields [OF validFields_zeroBelow [OF validFields_fieldsOf]])

lemma zeroBelow_idem: "zeroBelow p (zeroBelow p f) = zeroBelow p f"
  by (simp add: zeroBelow_def)

lemma instant_idem: "instantAtPrecision p (instantAtPrecision p x) = instantAtPrecision p x"
  by (simp add: instantAtPrecision_def [of p "instantAtPrecision p x"] fieldsOf_instant
      zeroBelow_idem) (simp add: instantAtPrecision_def)

lemma precision_cases:
  fixes p :: int
  assumes "0 \<le> p"
  shows "p = 0 \<or> p = 1 \<or> p = 2 \<or> p = 3 \<or> p = 4 \<or> p = 5 \<or> 6 \<le> p"
  using assms by presburger

lemma trunc_nonneg:
  assumes p: "0 \<le> p" and x: "x \<le> maxTime"
  shows "truncValue p (TimeClip x) = TimeClip (instantAtPrecision p x)"
    and "instantAtPrecision p x \<le> x"
  using precision_cases [OF p] trunc_0 [OF x] trunc_1 [OF x] trunc_2 [OF x] trunc_3 [OF x]
    trunc_4 [OF x] trunc_5 [OF x]
  by (auto simp: truncValue_ge6 instant_6)

lemma truncValue_valid:
  assumes "0 \<le> p" "\<bar>t\<bar> \<le> maxTime"
  shows "truncValue p (Some t) = TimeClip (instantAtPrecision p t)"
proof -
  have "TimeClip t = Some t" using assms(2) by (simp add: TimeClip_def)
  moreover have "t \<le> maxTime" using assms(2) by linarith
  ultimately show ?thesis using trunc_nonneg(1) [OF assms(1), of t] by simp
qed

lemma DaysInYear_0: "DaysInYear 0 = 366"
  by (simp add: DaysInYear_def)

lemma DayFromYear_0: "DayFromYear 0 = - 719528"
  by (simp add: DayFromYear_def)

lemma truncValue_neg_const:
  assumes "p < 0"
  shows "truncValue p tv = Some (- 62167219200000)"
proof -
  define t where "t = (case tv of None \<Rightarrow> 0 | Some t0 \<Rightarrow> t0)"
  define f where "f = (fieldsOf t)\<lparr>fYear := 0\<rparr>"
  define x1 where "x1 = fromFields f"
  have s: "setUTCFullYear (Some 0) tv = TimeClip x1"
    by (simp add: setUTCFullYear_exact x1_def f_def fromFields_def fieldsOf_def time_decomp
        t_def Let_def)
  have "DaysInMonth y m \<le> DaysInMonth 0 m" for y m
    by (simp add: DaysInMonth_def DaysInYear_0)
  then have le: "fDate (fieldsOf t) \<le> DaysInMonth 0 (fMonth (fieldsOf t))"
    using validFields_fieldsOf [of t] unfolding validFields_def
    by (meson order_trans)
  have v: "validFields f"
    using validFields_fieldsOf [of t] le by (simp add: validFields_def f_def)
  have m: "0 \<le> fMonth f" "fMonth f \<le> 11" using v by (simp_all add: validFields_def)
  have y: "fYear f = 0" by (simp add: f_def)
  have b: "DaysBeforeMonth 0 (fMonth f) \<le> 335"
    by (simp add: DaysBeforeMonth_def DaysInYear_0)
  have d: "fDate f \<le> 31" using v DaysInMonth_le_31 [of "fYear f" "fMonth f"]
    by (simp add: validFields_def)
  have x1: "x1 \<le> maxTime"
    unfolding x1_def fromFields_linear [OF m] y DayFromYear_0 maxTime_def
    using v b d by (simp add: validFields_def)
  have fx: "fieldsOf x1 = f" unfolding x1_def by (rule fieldsOf_fromFields [OF v])
  have z: "zeroBelow 0 f =
     \<lparr>fYear = 0, fMonth = 0, fDate = 1, fHours = 0, fMinutes = 0, fSeconds = 0,
      fMilliseconds = 0\<rparr>"
    by (simp add: zeroBelow_def y)
  have i: "instantAtPrecision 0 x1 = - 62167219200000"
    unfolding instantAtPrecision_def fx z
    by (simp add: fromFields_def MakeDate_def MakeDay_def MakeTime_def DayFromYear_0
        DaysBeforeMonth_def msPerDay_def)
  have "truncValue p tv = truncValue 0 (TimeClip x1)"
    using truncValue_neg [OF assms] s by simp
  also have "\<dots> = TimeClip (instantAtPrecision 0 x1)"
    using trunc_0 [OF x1] by simp
  finally show ?thesis by (simp add: i TimeClip_def maxTime_def)
qed

lemma truncValue_idem:
  assumes "valid_timevalue tv"
  shows "truncValue p (truncValue p tv) = truncValue p tv"
proof (cases "p < 0")
  case True
  then show ?thesis by (simp add: truncValue_neg_const)
next
  case False
  then have p: "0 \<le> p" by simp
  show ?thesis
  proof (cases tv)
    case None
    then show ?thesis by (simp add: truncValue_None [OF p])
  next
    case (Some t)
    then have t: "\<bar>t\<bar> \<le> maxTime" using assms by simp
    have a: "truncValue p tv = TimeClip (instantAtPrecision p t)"
      using truncValue_valid [OF p t] Some by simp
    have le: "instantAtPrecision p t \<le> maxTime"
      using trunc_nonneg(2) [OF p, of t] t by linarith
    show ?thesis unfolding a
      using trunc_nonneg(1) [OF p le] by (simp add: instant_idem)
  qed
qed

lemma truncStep_skip:
  "int i \<le> p \<Longrightarrow> truncStep p (acc, h) (i, (handler, zp)) = (acc, h)"
  by (simp add: truncStep_def)

lemma truncStep_apply:
  "\<not> int i \<le> p \<Longrightarrow>
   truncStep p (acc, h) (i, (handler, zp)) = (length h, h @ [handler (Some zp) (valueOf h acc)])"
  by (simp add: truncStep_def new_Date_def valueOf_def)

lemma foldl_truncStep:
  "foldl (truncStep p) (acc, h) xs = (r, h') \<Longrightarrow>
     valueOf h' r = foldl (truncValueStep p) (valueOf h acc) xs
     \<and> take (length h) h' = h
     \<and> (if \<forall>x \<in> set xs. int (fst x) \<le> p then r = acc \<and> h' = h
        else length h \<le> r \<and> r < length h')"
proof (induction xs arbitrary: acc h)
  case Nil
  then show ?case by simp
next
  case (Cons x xs)
  obtain i handler zp where x: "x = (i, (handler, zp))" by (cases x) auto
  show ?case
  proof (cases "int i \<le> p")
    case True
    have "foldl (truncStep p) (acc, h) xs = (r, h')"
      using Cons.prems by (simp add: x truncStep_skip [OF True])
    from Cons.IH [OF this] show ?thesis
      using True by (simp add: x truncValueStep_def)
  next
    case False
    define v where "v = handler (Some zp) (valueOf h acc)"
    have "foldl (truncStep p) (length h, h @ [v]) xs = (r, h')"
      using Cons.prems by (simp add: x truncStep_apply [OF False] v_def)
    from Cons.IH [OF this]
    have a: "valueOf h' r = foldl (truncValueStep p) (valueOf (h @ [v]) (length h)) xs"
      and b: "take (length (h @ [v])) h' = h @ [v]"
      and c: "(if \<forall>x \<in> set xs. int (fst x) \<le> p then r = length h \<and> h' = h @ [v]
        else length (h @ [v]) \<le> r \<and> r < length h')" by blast+
    have v: "valueOf (h @ [v]) (length h) = v" by (simp add: valueOf_def)
    have t: "take (length h) h' = h"
      using b by (metis append_eq_conv_conj take_take min.idem length_append
          le_add1 min.absorb1 take_all_iff append_take_drop_id append_assoc)
    have l: "length h < length h'"
      using b by (metis length_take length_append_singleton min.cobounded1 Suc_le_lessD
          min.commute)
    have s: "truncValueStep p (valueOf h acc) x = v"
      using False by (simp add: x truncValueStep_def v_def)
    have a': "valueOf h' r = foldl (truncValueStep p) (valueOf h acc) (x # xs)"
      using a by (simp add: v s)
    have n: "\<not> (\<forall>y \<in> set (x # xs). int (fst y) \<le> p)"
      using False by (simp add: x)
    have "length h \<le> r"
      using c l by (auto split: if_splits)
    moreover have "r < length h'"
      using c l by (auto split: if_splits)
    ultimately show ?thesis
      using a' t n by auto
  qed
qed


lemma getDateAtPrecision_heap:
  assumes "getDateAtPrecision h d p = (r, h')"
  shows "valueOf h' r = truncValue p (valueOf h d)"
    and "take (length h) h' = h"
    and "p < 6 \<Longrightarrow> length h \<le> r \<and> r < length h'"
    and "6 \<le> p \<Longrightarrow> r = d \<and> h' = h"
proof -
  note f = foldl_truncStep [OF assms [unfolded getDateAtPrecision_def]]
  show "valueOf h' r = truncValue p (valueOf h d)"
    using f by (simp add: truncValue_def)
  show "take (length h) h' = h" using f by simp
  have s: "fst ` set (enumerate 0 truncPrecisions) = {0, 1, 2, 3, 4, 5, 6}"
    by (auto simp: truncPrecisions_def)
  have a: "(\<forall>x \<in> set (enumerate 0 truncPrecisions). int (fst x) \<le> p) = (6 \<le> p)"
  proof -
    have "(\<forall>x \<in> set (enumerate 0 truncPrecisions). int (fst x) \<le> p)
        = (\<forall>i \<in> fst ` set (enumerate 0 truncPrecisions). int i \<le> p)" by auto
    then show ?thesis unfolding s by auto
  qed
  show "p < 6 \<Longrightarrow> length h \<le> r \<and> r < length h'"
    using f unfolding a by simp
  show "6 \<le> p \<Longrightarrow> r = d \<and> h' = h"
    using f unfolding a by simp
qed

section \<open>Offsetting a field\<close>

lemma offsetDateAtPrecision_unfold:
  assumes "0 \<le> p" "p \<le> 6"
  shows "offsetDateAtPrecision h d p off =
    Inr (length h, h @ [fst (offsetPrecisions ! nat p)
        (num_add (snd (offsetPrecisions ! nat p) (valueOf h d)) (Some off)) (valueOf h d)])"
proof -
  have l: "length offsetPrecisions = 7" by (simp add: offsetPrecisions_def)
  have n: "\<not> (p < 0 \<or> int (length offsetPrecisions) \<le> p)" using assms l by simp
  obtain setter getter where sg: "offsetPrecisions ! nat p = (setter, getter)"
    by (cases "offsetPrecisions ! nat p") auto
  show ?thesis
    unfolding offsetDateAtPrecision_def
    by (simp only: n if_False sg Let_def new_Date_def valueOf_def split_conv fst_conv snd_conv
        nth_append_length list_update_length)
qed

lemma MakeTime_add:
  "MakeTime (h + k) mi s ms = MakeTime h mi s ms + k * msPerHour"
  "MakeTime h (mi + k) s ms = MakeTime h mi s ms + k * msPerMinute"
  "MakeTime h mi (s + k) ms = MakeTime h mi s ms + k * msPerSecond"
  "MakeTime h mi s (ms + k) = MakeTime h mi s ms + k"
  by (simp_all add: MakeTime_def algebra_simps)

lemma MakeDate_Day: "MakeDate (Day t) (TimeWithinDay t) = t"
  by (simp add: MakeDate_def Day_def TimeWithinDay_def)

lemma offset_exact:
  fixes f off :: int
  assumes "\<bar>f\<bar> \<le> 86400000" "\<bar>off\<bar> \<le> 9007199168340992"
  shows "num_add (Some f) (Some off) = Some (f + off)"
proof -
  have "\<bar>f + off\<bar> \<le> 9007199254740992" using assms by linarith
  then show ?thesis by (simp add: round_num_exact)
qed

lemma unit_bound:
  fixes off u :: int
  assumes "\<bar>off\<bar> * u \<le> 9007199168340992" "1 \<le> u"
  shows "\<bar>off\<bar> \<le> 9007199168340992"
proof -
  have "\<bar>off\<bar> * 1 \<le> \<bar>off\<bar> * u" by (rule mult_left_mono [OF assms(2)]) simp
  then show ?thesis using assms(1) by linarith
qed

lemma time_sum_bound:
  fixes off u f r :: int
  assumes "\<bar>off\<bar> * u \<le> 9007199168340992" "0 \<le> f" "0 \<le> r" "0 \<le> u"
    "f * u + r < 86400000"
  shows "\<bar>f + off\<bar> * u + r \<le> 9007199254740992"
proof -
  have "\<bar>f + off\<bar> * u \<le> (\<bar>f\<bar> + \<bar>off\<bar>) * u"
    by (rule mult_right_mono [OF abs_triangle_ineq assms(4)])
  then have "\<bar>f + off\<bar> * u \<le> f * u + \<bar>off\<bar> * u"
    using assms(2) by (simp add: algebra_simps)
  then show ?thesis using assms(1,5) by linarith
qed

lemma offset_time_value:
  assumes t: "\<bar>t\<bar> \<le> maxTime"
  shows "\<bar>off\<bar> \<le> 9007199168340992 \<Longrightarrow>
      setUTCMilliseconds (num_add (Some (msFromTime t)) (Some off)) (Some t) = TimeClip (t + off)"
    and "\<bar>off\<bar> * msPerSecond \<le> 9007199168340992 \<Longrightarrow>
      setUTCSeconds (num_add (Some (SecFromTime t)) (Some off)) (Some t)
        = TimeClip (t + off * msPerSecond)"
    and "\<bar>off\<bar> * msPerMinute \<le> 9007199168340992 \<Longrightarrow>
      setUTCMinutes (num_add (Some (MinFromTime t)) (Some off)) (Some t)
        = TimeClip (t + off * msPerMinute)"
    and "\<bar>off\<bar> * msPerHour \<le> 9007199168340992 \<Longrightarrow>
      setUTCHours (num_add (Some (HourFromTime t)) (Some off)) (Some t)
        = TimeClip (t + off * msPerHour)"
proof -
  note r = time_fields_range [of t]
  note dv = Day_valid(1) [OF t]
  have e: "MakeDate (Day t) (MakeTime (HourFromTime t) (MinFromTime t) (SecFromTime t)
      (msFromTime t) + k) = t + k" for k
    using MakeDate_Day [of t] by (simp add: time_decomp [symmetric] MakeDate_def)
  {
    assume b: "\<bar>off\<bar> \<le> 9007199168340992"
    have v: "num_add (Some (msFromTime t)) (Some off) = Some (msFromTime t + off)"
      using r b by (intro offset_exact) simp_all
    have "\<bar>msFromTime t + off\<bar> * 1
        + (HourFromTime t * msPerHour + MinFromTime t * msPerMinute + SecFromTime t * msPerSecond)
        \<le> 9007199254740992"
      using r b by (intro time_sum_bound) (simp_all add: msPerHour_def msPerMinute_def msPerSecond_def)
    then have "\<bar>HourFromTime t\<bar> * msPerHour + \<bar>MinFromTime t\<bar> * msPerMinute
        + \<bar>SecFromTime t\<bar> * msPerSecond + \<bar>msFromTime t + off\<bar> \<le> 9007199254740992"
      using r by simp
    from num_MakeTime_exact [OF this]
    show "setUTCMilliseconds (num_add (Some (msFromTime t)) (Some off)) (Some t) = TimeClip (t + off)"
      by (simp only: v setUTCMilliseconds_def option.case num_MakeDate_clip [OF disjI1 [OF dv]]
          MakeTime_add e)
  next
    assume b: "\<bar>off\<bar> * msPerSecond \<le> 9007199168340992"
    have v: "num_add (Some (SecFromTime t)) (Some off) = Some (SecFromTime t + off)"
      using r unit_bound [OF b] by (intro offset_exact) (simp_all add: msPerSecond_def)
    have "\<bar>SecFromTime t + off\<bar> * msPerSecond
        + (HourFromTime t * msPerHour + MinFromTime t * msPerMinute + msFromTime t)
        \<le> 9007199254740992"
      using r b by (intro time_sum_bound) (simp_all add: msPerHour_def msPerMinute_def msPerSecond_def)
    then have "\<bar>HourFromTime t\<bar> * msPerHour + \<bar>MinFromTime t\<bar> * msPerMinute
        + \<bar>SecFromTime t + off\<bar> * msPerSecond + \<bar>msFromTime t\<bar> \<le> 9007199254740992"
      using r by simp
    from num_MakeTime_exact [OF this]
    show "setUTCSeconds (num_add (Some (SecFromTime t)) (Some off)) (Some t)
        = TimeClip (t + off * msPerSecond)"
      by (simp only: v setUTCSeconds_def option.case num_MakeDate_clip [OF disjI1 [OF dv]]
          MakeTime_add e)
  next
    assume b: "\<bar>off\<bar> * msPerMinute \<le> 9007199168340992"
    have v: "num_add (Some (MinFromTime t)) (Some off) = Some (MinFromTime t + off)"
      using r unit_bound [OF b] by (intro offset_exact) (simp_all add: msPerMinute_def)
    have "\<bar>MinFromTime t + off\<bar> * msPerMinute
        + (HourFromTime t * msPerHour + SecFromTime t * msPerSecond + msFromTime t)
        \<le> 9007199254740992"
      using r b by (intro time_sum_bound) (simp_all add: msPerHour_def msPerMinute_def msPerSecond_def)
    then have "\<bar>HourFromTime t\<bar> * msPerHour + \<bar>MinFromTime t + off\<bar> * msPerMinute
        + \<bar>SecFromTime t\<bar> * msPerSecond + \<bar>msFromTime t\<bar> \<le> 9007199254740992"
      using r by simp
    from num_MakeTime_exact [OF this]
    show "setUTCMinutes (num_add (Some (MinFromTime t)) (Some off)) (Some t)
        = TimeClip (t + off * msPerMinute)"
      by (simp only: v setUTCMinutes_def option.case num_MakeDate_clip [OF disjI1 [OF dv]]
          MakeTime_add e)
  next
    assume b: "\<bar>off\<bar> * msPerHour \<le> 9007199168340992"
    have v: "num_add (Some (HourFromTime t)) (Some off) = Some (HourFromTime t + off)"
      using r unit_bound [OF b] by (intro offset_exact) (simp_all add: msPerHour_def)
    have "\<bar>HourFromTime t + off\<bar> * msPerHour
        + (MinFromTime t * msPerMinute + SecFromTime t * msPerSecond + msFromTime t)
        \<le> 9007199254740992"
      using r b by (intro time_sum_bound) (simp_all add: msPerHour_def msPerMinute_def msPerSecond_def)
    then have "\<bar>HourFromTime t + off\<bar> * msPerHour + \<bar>MinFromTime t\<bar> * msPerMinute
        + \<bar>SecFromTime t\<bar> * msPerSecond + \<bar>msFromTime t\<bar> \<le> 9007199254740992"
      using r by simp
    from num_MakeTime_exact [OF this]
    show "setUTCHours (num_add (Some (HourFromTime t)) (Some off)) (Some t)
        = TimeClip (t + off * msPerHour)"
      by (simp only: v setUTCHours_def option.case num_MakeDate_clip [OF disjI1 [OF dv]]
          MakeTime_add e)
  }
qed

lemma far_day:
  assumes "200000000 \<le> \<bar>dd\<bar>" "\<bar>tm\<bar> < msPerDay"
  shows "TimeClip (MakeDate dd tm) = None"
proof -
  have "200000000 * msPerDay \<le> \<bar>dd\<bar> * msPerDay"
    using assms(1) by (intro mult_right_mono) (simp_all add: msPerDay_def)
  then have "8640000086400000 \<le> \<bar>dd * msPerDay\<bar>"
    by (simp add: abs_mult msPerDay_def)
  then show ?thesis using assms(2) by (intro TimeClip_beyond)
qed

lemma rounded_argument:
  obtains "\<bar>f + off\<bar> \<le> 9007199254740992" "num_add (Some f) (Some off) = Some (f + off)"
  | "9007199254740992 \<le> \<bar>f + off\<bar>" "num_add (Some f) (Some off) = None"
  | x where "9007199254740992 \<le> \<bar>f + off\<bar>" "num_add (Some f) (Some off) = Some x"
      "9007199254740992 \<le> \<bar>x\<bar>"
proof (cases "\<bar>f + off\<bar> \<le> 9007199254740992")
  case True
  then show ?thesis using that(1) by (simp add: round_num_exact)
next
  case False
  then have b: "9007199254740992 \<le> \<bar>f + off\<bar>" by simp
  have "beyond 9007199254740992 (round_num (f + off))" by (rule beyond_round [OF _ b]) simp
  then show ?thesis using that(2,3) b
    by (cases "round_num (f + off)") (simp_all add: beyond_def)
qed

lemma date_value:
  "MakeDate (MakeDay (YearFromTime t) (MonthFromTime t) (DateFromTime t + k)) (TimeWithinDay t)
     = t + k * msPerDay"
proof -
  have "MakeDay (YearFromTime t) (MonthFromTime t) (DateFromTime t + k) = Day t + k"
    using fields_range(5) [of t] by (simp add: MakeDay_def Let_def)
  moreover have "MakeDate (Day t + k) (TimeWithinDay t)
      = MakeDate (Day t) (TimeWithinDay t) + k * msPerDay"
    by (simp add: MakeDate_def algebra_simps)
  ultimately show ?thesis by (simp add: MakeDate_Day)
qed

lemma far_time:
  assumes "\<bar>t\<bar> \<le> maxTime" "9007199254740000 \<le> \<bar>k\<bar>"
  shows "TimeClip (t + k * msPerDay) = None"
proof -
  have "9007199254740000 * msPerDay \<le> \<bar>k\<bar> * msPerDay"
    using assms(2) by (intro mult_right_mono) (simp_all add: msPerDay_def)
  then have "9007199254740000 * 86400000 \<le> \<bar>k * msPerDay\<bar>"
    by (simp add: abs_mult msPerDay_def)
  then have "maxTime < \<bar>t + k * msPerDay\<bar>" using assms(1) by (simp add: maxTime_def)
  then show ?thesis by (simp add: TimeClip_def)
qed

lemma offset_date_value:
  assumes t: "\<bar>t\<bar> \<le> maxTime"
  shows "setUTCDate (num_add (Some (DateFromTime t)) (Some off)) (Some t)
     = TimeClip (t + off * msPerDay)"
proof -
  note d = DateFromTime_abs [of t]
  show ?thesis
  proof (cases rule: rounded_argument [of "DateFromTime t" off])
    case 1
    show ?thesis by (simp only: 1(2) setUTCDate_exact [OF t] date_value)
  next
    case 2
    have "9007199254740000 \<le> \<bar>off\<bar>" using 2(1) d by linarith
    from far_time [OF t this] show ?thesis by (simp only: 2(2) setter_NaN)
  next
    case (3 x)
    have o: "9007199254740000 \<le> \<bar>off\<bar>" using 3(1) d by linarith
    have "9007199254740000 \<le> \<bar>x - DateFromTime t\<bar>" using 3(3) d by linarith
    from far_time [OF t this]
    have "TimeClip (MakeDate (MakeDay (YearFromTime t) (MonthFromTime t) x) (TimeWithinDay t)) = None"
      using date_value [of t "x - DateFromTime t"] by simp
    then show ?thesis using far_time [OF t o] by (simp only: 3(2) setUTCDate_exact [OF t])
  qed
qed

lemma far_month:
  assumes t: "\<bar>t\<bar> \<le> maxTime" and m: "1000000000 \<le> \<bar>m\<bar>"
  shows "TimeClip (fromFields ((fieldsOf t)\<lparr>fMonth := m\<rparr>)) = None"
proof -
  define ym where "ym = YearFromTime t + m div 12"
  have y: "\<bar>YearFromTime t\<bar> \<le> 300000" by (rule YearFromTime_valid [OF t])
  have "83333333 \<le> \<bar>m div 12\<bar>"
  proof (cases "0 \<le> m")
    case True
    then have "1000000000 div 12 \<le> m div 12" using m by (intro zdiv_mono1) simp_all
    then show ?thesis by simp
  next
    case False
    then have "m div 12 \<le> (- 1000000000) div 12" using m by (intro zdiv_mono1) simp_all
    then show ?thesis by simp
  qed
  then have b: "10000000 \<le> \<bar>ym\<bar>" using y by (simp add: ym_def)
  note g = month_start_big [OF b, of "m mod 12"]
  have "200000000 \<le> \<bar>MakeDay (YearFromTime t) m (DateFromTime t)\<bar>"
    using g DateFromTime_abs [of t] by (simp add: MakeDay_def Let_def ym_def [symmetric])
  from far_day [OF this, of "TimeWithinDay t"] TimeWithinDay_range [of t]
  show ?thesis by (simp add: fromFields_def fieldsOf_def time_decomp)
qed

lemma far_year:
  assumes y: "10000000 \<le> \<bar>y\<bar>"
  shows "TimeClip (fromFields ((fieldsOf t)\<lparr>fYear := y\<rparr>)) = None"
proof -
  have "MonthFromTime t div 12 = 0" "MonthFromTime t mod 12 = MonthFromTime t"
    using fields_range(1,2) [of t] by simp_all
  then have "200000000 \<le> \<bar>MakeDay y (MonthFromTime t) (DateFromTime t)\<bar>"
    using month_start_big [OF y, of "MonthFromTime t"] DateFromTime_abs [of t]
    by (simp add: MakeDay_def Let_def)
  from far_day [OF this, of "TimeWithinDay t"] TimeWithinDay_range [of t]
  show ?thesis by (simp add: fromFields_def fieldsOf_def time_decomp)
qed

lemma offset_month_value:
  assumes t: "\<bar>t\<bar> \<le> maxTime"
  shows "setUTCMonth (num_add (Some (MonthFromTime t)) (Some off)) (Some t)
     = TimeClip (fromFields ((fieldsOf t)\<lparr>fMonth := MonthFromTime t + off\<rparr>))"
proof (cases rule: rounded_argument [of "MonthFromTime t" off])
  case 1
  show ?thesis by (simp only: 1(2) setUTCMonth_fields)
next
  case 2
  have "1000000000 \<le> \<bar>MonthFromTime t + off\<bar>" using 2(1) by linarith
  from far_month [OF t this] show ?thesis by (simp only: 2(2) setter_NaN)
next
  case (3 x)
  have a: "1000000000 \<le> \<bar>MonthFromTime t + off\<bar>" using 3(1) by linarith
  have b: "1000000000 \<le> \<bar>x\<bar>" using 3(3) by linarith
  show ?thesis by (simp only: 3(2) setUTCMonth_fields far_month [OF t a] far_month [OF t b])
qed

lemma offset_year_value:
  "setUTCFullYear (num_add (Some (YearFromTime t)) (Some off)) (Some t)
     = TimeClip (fromFields ((fieldsOf t)\<lparr>fYear := YearFromTime t + off\<rparr>))"
proof (cases rule: rounded_argument [of "YearFromTime t" off])
  case 1
  show ?thesis by (simp only: 1(2) setUTCFullYear_fields)
next
  case 2
  have "10000000 \<le> \<bar>YearFromTime t + off\<bar>" using 2(1) by linarith
  from far_year [OF this] show ?thesis by (simp only: 2(2) setter_NaN)
next
  case (3 x)
  have a: "10000000 \<le> \<bar>YearFromTime t + off\<bar>" using 3(1) by linarith
  have b: "10000000 \<le> \<bar>x\<bar>" using 3(3) by linarith
  show ?thesis by (simp only: 3(2) setUTCFullYear_fields far_year [OF a] far_year [OF b])
qed

lemma time_fields_of_TimeWithinDay:
  assumes "TimeWithinDay x = TimeWithinDay t"
  shows "HourFromTime x = HourFromTime t" "MinFromTime x = MinFromTime t"
    "SecFromTime x = SecFromTime t" "msFromTime x = msFromTime t"
proof -
  have x: "x = MakeDate (Day x)
      (MakeTime (HourFromTime t) (MinFromTime t) (SecFromTime t) (msFromTime t))"
    using MakeDate_Day [of x] by (simp add: assms time_decomp [symmetric])
  note r = time_fields_range [of t]
  show "HourFromTime x = HourFromTime t" "MinFromTime x = MinFromTime t"
    "SecFromTime x = SecFromTime t" "msFromTime x = msFromTime t"
    using time_fields [OF r x] by simp_all
qed

lemma TimeWithinDay_fromFields:
  assumes "validFields f"
  shows "TimeWithinDay (fromFields (f\<lparr>fYear := y, fMonth := m\<rparr>)) = TimeWithinDay (fromFields f)"
proof -
  have r: "0 \<le> MakeTime (fHours f) (fMinutes f) (fSeconds f) (fMilliseconds f)"
    "MakeTime (fHours f) (fMinutes f) (fSeconds f) (fMilliseconds f) < msPerDay"
    using assms MakeTime_range [of "fHours f" "fMinutes f" "fSeconds f" "fMilliseconds f"]
    by (simp_all add: validFields_def)
  show ?thesis
    by (simp add: fromFields_def Day_MakeDate(2) [OF r])
qed

lemma shift_ms: "msFromTime (t + k * 1000) = msFromTime t"
  by (simp add: msFromTime_def msPerSecond_def)

lemma shift_sec: "SecFromTime (t + k * 60000) = SecFromTime t"
proof -
  have "(t + 1000 * (k * 60)) div 1000 = k * 60 + t div 1000"
    by (rule div_mult_self2) simp
  then have "(t + k * 60000) div 1000 = t div 1000 + k * 60"
    by (simp add: algebra_simps)
  then show ?thesis by (simp add: SecFromTime_def msPerSecond_def)
qed

lemma shift_min: "MinFromTime (t + k * 3600000) = MinFromTime t"
proof -
  have "(t + 60000 * (k * 60)) div 60000 = k * 60 + t div 60000"
    by (rule div_mult_self2) simp
  then have "(t + k * 3600000) div 60000 = t div 60000 + k * 60"
    by (simp add: algebra_simps)
  then show ?thesis by (simp add: MinFromTime_def msPerMinute_def)
qed

lemma shift_day: "TimeWithinDay (t + k * msPerDay) = TimeWithinDay t"
  by (simp add: TimeWithinDay_def)


lemma TimeWithinDay_fromFields_eq:
  assumes "validFields f" "fHours g = fHours f" "fMinutes g = fMinutes f"
    "fSeconds g = fSeconds f" "fMilliseconds g = fMilliseconds f"
  shows "TimeWithinDay (fromFields g) = TimeWithinDay (fromFields f)"
proof -
  have r: "0 \<le> MakeTime (fHours f) (fMinutes f) (fSeconds f) (fMilliseconds f)"
    "MakeTime (fHours f) (fMinutes f) (fSeconds f) (fMilliseconds f) < msPerDay"
    using assms(1) MakeTime_range [of "fHours f" "fMinutes f" "fSeconds f" "fMilliseconds f"]
    by (simp_all add: validFields_def)
  show ?thesis
    by (simp add: fromFields_def assms(2-5) Day_MakeDate(2) [OF r])
qed

lemma precision_cases7:
  fixes p :: int
  assumes "0 \<le> p" "p \<le> 6"
  shows "p = 0 \<or> p = 1 \<or> p = 2 \<or> p = 3 \<or> p = 4 \<or> p = 5 \<or> p = 6"
  using assms by presburger

lemma finer_time_fields:
  assumes p: "0 \<le> p" "p \<le> 6"
    and hi: "2 \<le> p \<longrightarrow> x = t + off * fieldUnit p"
    and lo: "p \<le> 1 \<longrightarrow> TimeWithinDay x = TimeWithinDay t"
  shows "\<forall>i<7. max p 2 < int i \<longrightarrow> (fieldGetters ! i) (Some x) = (fieldGetters ! i) (Some t)"
proof -
  have w: "p \<le> 2 \<Longrightarrow> TimeWithinDay x = TimeWithinDay t"
    using lo hi shift_day [of t off] by (cases "p \<le> 1") (auto simp: fieldUnit_def)
  have H: "p \<le> 2 \<Longrightarrow> HourFromTime x = HourFromTime t"
    using time_fields_of_TimeWithinDay(1) [OF w] .
  have M: "p \<le> 3 \<Longrightarrow> MinFromTime x = MinFromTime t"
    using time_fields_of_TimeWithinDay(2) [OF w] hi shift_min [of t off]
    by (cases "p \<le> 2") (auto simp: fieldUnit_def msPerHour_def)
  have s3: "SecFromTime (t + off * 3600000) = SecFromTime t"
    using shift_sec [of t "off * 60"] by (simp add: algebra_simps)
  have S: "p \<le> 4 \<Longrightarrow> SecFromTime x = SecFromTime t"
    using time_fields_of_TimeWithinDay(3) [OF w] hi shift_sec [of t off] s3
      precision_cases7 [OF p]
    by (auto simp: fieldUnit_def msPerHour_def msPerMinute_def)
  have m4: "msFromTime (t + off * 60000) = msFromTime t"
    using shift_ms [of t "off * 60"] by (simp add: algebra_simps)
  have m3: "msFromTime (t + off * 3600000) = msFromTime t"
    using shift_ms [of t "off * 3600"] by (simp add: algebra_simps)
  have m: "p \<le> 5 \<Longrightarrow> msFromTime x = msFromTime t"
    using time_fields_of_TimeWithinDay(4) [OF w] hi shift_ms [of t off] m4 m3
      precision_cases7 [OF p]
    by (auto simp: fieldUnit_def msPerHour_def msPerMinute_def msPerSecond_def)
  show ?thesis
  proof (intro allI impI)
    fix i :: nat
    assume i: "i < 7" and g: "max p 2 < int i"
    have "i = 3 \<or> i = 4 \<or> i = 5 \<or> i = 6" using i g by presburger
    then show "(fieldGetters ! i) (Some x) = (fieldGetters ! i) (Some t)"
      using g H M S m
      by (elim disjE; simp add: fieldGetters_def offsetPrecisions_def getUTCHours_def
          getUTCMinutes_def getUTCSeconds_def getUTCMilliseconds_def)
  qed
qed


lemma MakeDay_normal:
  "MakeDay y m dt = MakeDay (y + m div 12) (m mod 12) dt"
proof -
  have "m mod 12 div 12 = 0" by simp
  then show ?thesis by (simp add: MakeDay_def Let_def)
qed

lemma next_month:
  assumes "0 \<le> mn" "mn \<le> 11"
  shows "MakeDay y mn d = MakeDay y (mn + 1) (d - DaysInMonth y mn)"
proof (cases "mn = 11")
  case True
  have "DaysInYear y = 365 \<or> DaysInYear y = 366" by (rule DaysInYear_cases)
  then show ?thesis
    unfolding True
    by (elim disjE; simp add: MakeDay_def Let_def DayFromYear_Suc DaysBeforeMonth_def
        DaysInMonth_def)
next
  case False
  then have c: "mn = 0 \<or> mn = 1 \<or> mn = 2 \<or> mn = 3 \<or> mn = 4 \<or> mn = 5 \<or> mn = 6
      \<or> mn = 7 \<or> mn = 8 \<or> mn = 9 \<or> mn = 10"
    using assms by presburger
  have l: "DaysInYear y = 365 \<or> DaysInYear y = 366" by (rule DaysInYear_cases)
  from c l show ?thesis
    by (elim disjE; simp add: MakeDay_def Let_def DaysBeforeMonth_def DaysInMonth_def)
qed

lemma DaysInMonth_ge_28: "28 \<le> DaysInMonth y m"
  by (simp add: DaysInMonth_def)

lemma carried_fields:
  assumes v: "validFields f"
  shows "fieldsOf (fromFields (f\<lparr>fYear := y, fMonth := m\<rparr>)) = carriedFields f y m"
proof -
  define ym where "ym = y + m div 12"
  define mn where "mn = m mod 12"
  have mn: "0 \<le> mn" "mn \<le> 11" by (simp_all add: mn_def)
  have d: "1 \<le> fDate f" "fDate f \<le> 31"
    using v DaysInMonth_le_31 [of "fYear f" "fMonth f"] by (simp_all add: validFields_def)
  have e: "fromFields (f\<lparr>fYear := y, fMonth := m\<rparr>) = fromFields (f\<lparr>fYear := ym, fMonth := mn\<rparr>)"
    using MakeDay_normal [of y m "fDate f"] by (simp add: fromFields_def ym_def mn_def)
  show ?thesis
  proof (cases "fDate f \<le> DaysInMonth ym mn")
    case True
    have "validFields (f\<lparr>fYear := ym, fMonth := mn\<rparr>)"
      using v mn True by (simp add: validFields_def)
    from fieldsOf_fromFields [OF this] show ?thesis
      using True by (simp add: e carriedFields_def Let_def ym_def [symmetric] mn_def [symmetric])
  next
    case False
    define g where "g = f\<lparr>fYear := ym + (mn + 1) div 12, fMonth := (mn + 1) mod 12,
        fDate := fDate f - DaysInMonth ym mn\<rparr>"
    have "MakeDay ym mn (fDate f) = MakeDay ym (mn + 1) (fDate f - DaysInMonth ym mn)"
      by (rule next_month [OF mn])
    also have "\<dots> = MakeDay (ym + (mn + 1) div 12) ((mn + 1) mod 12) (fDate f - DaysInMonth ym mn)"
      by (rule MakeDay_normal)
    finally have e2: "fromFields (f\<lparr>fYear := ym, fMonth := mn\<rparr>) = fromFields g"
      by (simp add: fromFields_def g_def)
    have "fDate f - DaysInMonth ym mn \<le> 3"
      using d(2) DaysInMonth_ge_28 [of ym mn] by linarith
    then have "fDate f - DaysInMonth ym mn
        \<le> DaysInMonth (ym + (mn + 1) div 12) ((mn + 1) mod 12)"
      using DaysInMonth_ge_28 [of "ym + (mn + 1) div 12" "(mn + 1) mod 12"] by linarith
    then have "validFields g"
      using v False by (simp add: validFields_def g_def)
    from fieldsOf_fromFields [OF this] show ?thesis
      using False
      by (simp add: e e2 carriedFields_def Let_def ym_def [symmetric] mn_def [symmetric] g_def)
  qed
qed

lemma carried_date:
  "(fDate (carriedFields f y m) = fDate f) = (fDate f \<le> DaysInMonth (y + m div 12) (m mod 12))"
  using DaysInMonth_ge_28 [of "y + m div 12" "m mod 12"]
  by (simp add: carriedFields_def Let_def)

lemma carried_time:
  "fHours (carriedFields f y m) = fHours f" "fMinutes (carriedFields f y m) = fMinutes f"
  "fSeconds (carriedFields f y m) = fSeconds f"
  "fMilliseconds (carriedFields f y m) = fMilliseconds f"
  by (simp_all add: carriedFields_def Let_def)


section \<open>Digits, padding and splitting\<close>

lemma is_digit_digit_char: "k < 10 \<Longrightarrow> is_digit (digit_char k)"
  by (simp add: is_digit_def digit_char_def)

lemma digit_value_digit_char: "k < 10 \<Longrightarrow> digit_value (digit_char k) = k"
  by (simp add: digit_value_def digit_char_def)

lemma digits_of_nat_digits: "\<forall>c \<in> set (digits_of_nat n). is_digit c"
proof (induction n rule: digits_of_nat.induct)
  case (1 n)
  show ?case
  proof (cases "n < 10")
    case True
    then show ?thesis by (simp add: digits_of_nat.simps [of n] is_digit_digit_char)
  next
    case False
    then show ?thesis using 1 by (simp add: digits_of_nat.simps [of n] is_digit_digit_char)
  qed
qed

lemma digits_of_nat_nonempty: "digits_of_nat n \<noteq> []"
  by (simp add: digits_of_nat.simps [of n])

lemma nat_of_digits_snoc: "nat_of_digits (ds @ [c]) = 10 * nat_of_digits ds + digit_value c"
  by (simp add: nat_of_digits_def)

lemma nat_of_digits_of_nat: "nat_of_digits (digits_of_nat n) = n"
proof (induction n rule: digits_of_nat.induct)
  case (1 n)
  show ?case
  proof (cases "n < 10")
    case True
    then show ?thesis
      by (simp add: digits_of_nat.simps [of n] nat_of_digits_def digit_value_digit_char)
  next
    case False
    then show ?thesis using 1
      by (simp add: digits_of_nat.simps [of n] nat_of_digits_snoc digit_value_digit_char)
  qed
qed

lemma foldl_digits_zero:
  "foldl (\<lambda>acc c. 10 * acc + digit_value c) 0 (replicate k (CHR ''0'')) = 0"
  by (induction k) (simp_all add: digit_value_def)

lemma nat_of_digits_padStart:
  "nat_of_digits (padStart n (CHR ''0'') ds) = nat_of_digits ds"
  by (simp add: padStart_def nat_of_digits_def foldl_digits_zero)

lemma is_digit_zero: "is_digit (CHR ''0'')"
  by (simp add: is_digit_def)

lemma padStart_digits:
  "\<forall>c \<in> set ds. is_digit c \<Longrightarrow> \<forall>c \<in> set (padStart n (CHR ''0'') ds). is_digit c"
  by (auto simp: padStart_def is_digit_zero)

lemma padStart_nonempty: "ds \<noteq> [] \<Longrightarrow> padStart n c ds \<noteq> []"
  by (simp add: padStart_def)

lemma digit_not_special:
  "is_digit c \<Longrightarrow> c \<noteq> CHR ''-'' \<and> c \<noteq> CHR ''+'' \<and> \<not> is_whitespace c"
  by (auto simp: is_digit_def is_whitespace_def)

lemma parseInt10_digits:
  assumes "ds \<noteq> []" "\<forall>c \<in> set ds. is_digit c"
  shows "parseInt10 ds = Finite (real (nat_of_digits ds))"
proof -
  obtain c cs where ds: "ds = c # cs" using assms(1) by (cases ds) auto
  have c: "is_digit c" using assms(2) ds by simp
  note n = digit_not_special [OF c]
  have d: "dropWhile is_whitespace ds = ds" using n by (simp add: ds)
  have t: "takeWhile is_digit ds = ds" using assms(2) by (simp add: takeWhile_eq_all_conv)
  show ?thesis
    unfolding parseInt10_def d Let_def
    using n t by (simp add: ds)
qed

lemma splitAux_dash_no:
  "CHR ''-'' \<notin> set a \<Longrightarrow> splitAux ''-'' 0 cur a = [rev cur @ a]"
  by (induction a arbitrary: cur) auto

lemma splitAux_dash:
  "CHR ''-'' \<notin> set a \<Longrightarrow>
   splitAux ''-'' 0 cur (a @ CHR ''-'' # rest) = (rev cur @ a) # splitAux ''-'' 0 [] rest"
  by (induction a arbitrary: cur) auto

lemma splitAux_dash_hd:
  "splitAux ''-'' 0 cur s \<noteq> []
   \<and> hd (splitAux ''-'' 0 cur s) = rev cur @ takeWhile (\<lambda>c. c \<noteq> CHR ''-'') s"
  by (induction s arbitrary: cur) auto

section \<open>The parser: when the year is missing\<close>

lemma parseInt10_NaN_iff: "parseInt10 seg = NaN \<longleftrightarrow> \<not> hasIntegerPrefix seg"
proof -
  define s1 where "s1 = dropWhile is_whitespace seg"
  have tw: "takeWhile is_digit xs = [] \<longleftrightarrow> (case xs of [] \<Rightarrow> True | d # _ \<Rightarrow> \<not> is_digit d)" for xs
    by (cases xs) auto
  show ?thesis
  proof (cases s1)
    case Nil
    then show ?thesis
      by (simp add: parseInt10_def hasIntegerPrefix_def s1_def [symmetric])
  next
    case (Cons c cs)
    have nd: "\<not> is_digit (CHR ''+'')" "\<not> is_digit (CHR ''-'')" by (simp_all add: is_digit_def)
    show ?thesis
    proof (cases "c = CHR ''+'' \<or> c = CHR ''-''")
      case True
      then show ?thesis
        unfolding parseInt10_def hasIntegerPrefix_def s1_def [symmetric] Cons Let_def
        by (cases cs) (auto simp: tw)
    next
      case False
      then show ?thesis
        unfolding parseInt10_def hasIntegerPrefix_def s1_def [symmetric] Cons Let_def
        by (auto simp: tw)
    qed
  qed
qed

lemma split_default_hd:
  "split x ''-'' \<noteq> [] \<and> hd (split x ''-'') = takeWhile (\<lambda>c. c \<noteq> CHR ''-'') x"
  using splitAux_dash_hd [of "[]" x] by (simp add: split_def)

lemma getNumber_undefined_iff:
  "getNumber (numAt vs 0) JUndefined = JUndefined \<longleftrightarrow> (vs = [] \<or> hd vs = NaN)"
proof (cases vs)
  case Nil
  then show ?thesis by (simp add: numAt_def)
next
  case (Cons v vs')
  then show ?thesis by (cases v) (simp_all add: numAt_def)
qed

lemma year_missing_iff:
  "getNumber (numAt (map parseInt10 (split
      (if (case s of c # _ \<Rightarrow> c = CHR ''-'' | [] \<Rightarrow> False) then drop 1 s else s) ''-'')) 0)
      JUndefined = JUndefined
   \<longleftrightarrow> \<not> hasIntegerPrefix (yearSegment s)"
proof -
  define x where "x = (if (case s of c # _ \<Rightarrow> c = CHR ''-'' | [] \<Rightarrow> False) then drop 1 s else s)"
  have y: "yearSegment s = takeWhile (\<lambda>c. c \<noteq> CHR ''-'') x"
    by (cases s) (simp_all add: yearSegment_def x_def)
  note sp = split_default_hd [of x]
  have h: "hd (map parseInt10 (split x ''-'')) = parseInt10 (yearSegment s)"
    using sp by (simp add: hd_map y)
  show ?thesis
    unfolding x_def [symmetric] getNumber_undefined_iff h
    using sp by (simp add: parseInt10_NaN_iff)
qed

lemma parse_missing:
  assumes "getNumber (numAt (map parseInt10 (split
      (if (case s of c # _ \<Rightarrow> c = CHR ''-'' | [] \<Rightarrow> False) then drop 1 s else s)
      (delimiterOf opt))) 0) JUndefined = JUndefined"
  shows "parseDateStringWithPrecision h now s p opt = Inl (MalformedDateString s)"
  using assms by (simp add: parseDateStringWithPrecision_def Let_def)

lemma parse_present:
  assumes "getNumber (numAt (map parseInt10 (split
      (if (case s of c # _ \<Rightarrow> c = CHR ''-'' | [] \<Rightarrow> False) then drop 1 s else s)
      (delimiterOf opt))) 0) JUndefined \<noteq> JUndefined"
  shows "\<exists>r h'. parseDateStringWithPrecision h now s p opt = Inr (r, h')
      \<and> valueOf h' r = parsedValue s p opt \<and> take (length h) h' = h
      \<and> length h \<le> r \<and> r < length h'"
proof -
  obtain y m dd where a: "parsedArguments s opt = (y, m, dd)"
    by (cases "parsedArguments s opt") auto
  define h0 where "h0 = h @ [TimeClip now]"
  obtain date h1 where g1: "getDateAtPrecision h0 (length h) (- 1) = (date, h1)"
    by (cases "getDateAtPrecision h0 (length h) (- 1)") auto
  note f1 = getDateAtPrecision_heap [OF g1]
  have v1: "valueOf h1 date = Some clearedDate"
    using f1(1) by (simp add: truncValue_neg_const clearedDate_def)
  have d1: "length h0 \<le> date" "date < length h1" using f1(3) by simp_all
  define h2 where "h2 = h1[date := setUTCFullYear y (valueOf h1 date)]"
  define h3 where "h3 = h2[date := setUTCMonth m (valueOf h2 date)]"
  define h4 where "h4 = h3[date := setUTCDate dd (valueOf h3 date)]"
  have l: "length h2 = length h1" "length h3 = length h1" "length h4 = length h1"
    by (simp_all add: h2_def h3_def h4_def)
  have v2: "valueOf h2 date = setUTCFullYear y (Some clearedDate)"
    using d1 v1 by (simp add: h2_def valueOf_def)
  have v3: "valueOf h3 date = setUTCMonth m (setUTCFullYear y (Some clearedDate))"
    using d1 l v2 by (simp add: h3_def valueOf_def)
  have v4: "valueOf h4 date =
      setUTCDate dd (setUTCMonth m (setUTCFullYear y (Some clearedDate)))"
    using d1 l v3 by (simp add: h4_def valueOf_def)
  have t4: "take (length h) h4 = h"
  proof -
    have "length h < date" using d1(1) by (simp add: h0_def)
    then have "take (length h) h4 = take (length h) h1"
      by (simp add: h4_def h3_def h2_def)
    also have "\<dots> = take (length h) (take (length h0) h1)" by (simp add: h0_def)
    also have "\<dots> = h" by (simp only: f1(2)) (simp add: h0_def)
    finally show ?thesis .
  qed
  obtain r h5 where g2: "getDateAtPrecision h4 date p = (r, h5)"
    by (cases "getDateAtPrecision h4 date p") auto
  note f2 = getDateAtPrecision_heap [OF g2]
  have t5: "take (length h) h5 = h"
  proof -
    have "length h \<le> length h4" using d1 l by (simp add: h0_def)
    then have "take (length h) h5 = take (length h) (take (length h4) h5)"
      by (simp add: min.absorb1)
    then show ?thesis by (simp only: f2(2) t4)
  qed
  have run: "parseDateStringWithPrecision h now s p opt = Inr (r, h5)"
    using assms a g1 g2
    unfolding parseDateStringWithPrecision_def parsedArguments_def Let_def new_Date_def
      h0_def h2_def h3_def h4_def
    by (simp add: split_def)
  have v5: "valueOf h5 r = parsedValue s p opt"
    using f2(1) v4 by (simp add: parsedValue_def a)
  have b: "length h \<le> r \<and> r < length h5"
  proof (cases "p < 6")
    case True
    have "length h \<le> length h4" using d1 l by (simp add: h0_def)
    then show ?thesis using f2(3) [OF True] by linarith
  next
    case False
    then have "r = date \<and> h5 = h4" using f2(4) by simp
    moreover have "length h \<le> date" using d1(1) by (simp add: h0_def)
    ultimately show ?thesis using d1(2) l by simp
  qed
  show ?thesis using run v5 t5 b by blast
qed

lemma TimeClip_valid: "valid_timevalue (TimeClip x)"
  by (simp add: TimeClip_def)

lemma num_TimeClip_valid: "valid_timevalue (num_TimeClip x)"
  by (cases x) (simp_all add: num_TimeClip_def TimeClip_valid)

lemma setter_valid:
  "valid_timevalue (setUTCFullYear a tv)" "valid_timevalue (setUTCMonth a tv)"
  "valid_timevalue (setUTCDate a tv)"
  by (cases tv; simp add: setUTCFullYear_def setUTCMonth_def setUTCDate_def Let_def
      num_TimeClip_valid)+

lemma truncValue_keeps_valid:
  assumes "valid_timevalue tv"
  shows "valid_timevalue (truncValue p tv)"
proof (cases "p < 0")
  case True
  then show ?thesis by (simp add: truncValue_neg_const maxTime_def)
next
  case False
  then have p: "0 \<le> p" by simp
  show ?thesis
  proof (cases tv)
    case None
    then show ?thesis by (simp add: truncValue_None [OF p])
  next
    case (Some t)
    then have "\<bar>t\<bar> \<le> maxTime" using assms by simp
    from truncValue_valid [OF p this] show ?thesis by (simp add: Some TimeClip_valid)
  qed
qed

lemma parsedValue_valid: "valid_timevalue (parsedValue s p opt)"
  unfolding parsedValue_def
  by (cases "parsedArguments s opt") (simp add: truncValue_keeps_valid setter_valid)

lemma decimalNumeral_prefix:
  assumes "decimalNumeral seg"
  shows "hasIntegerPrefix seg"
proof -
  obtain c cs where s: "seg = c # cs" "is_digit c"
    using assms by (cases seg) (simp_all add: decimalNumeral_def)
  have "\<not> is_whitespace c" "c \<noteq> CHR ''+''" "c \<noteq> CHR ''-''"
    using s(2) by (auto simp: is_digit_def is_whitespace_def)
  then show ?thesis using s by (simp add: hasIntegerPrefix_def)
qed


section \<open>The formatted string and what the parser reads from it\<close>

lemma String_of_int_nonneg: "0 \<le> i \<Longrightarrow> String_of_int i = digits_of_nat (nat i)"
  by (simp add: String_of_int_def)

lemma format_valid:
  assumes t: "valueOf h d = Some t" and p: "0 \<le> p"
  shows "getDateStringAtPrecision h d p None =
     join ''-'' (take (nat (p + 1))
       [if YearFromTime t < 0
        then CHR ''-'' # padStart 6 (CHR ''0'') (digits_of_nat (nat (- YearFromTime t)))
        else padStart 4 (CHR ''0'') (digits_of_nat (nat (YearFromTime t))),
        padStart 2 (CHR ''0'') (digits_of_nat (nat (MonthFromTime t + 1))),
        padStart 2 (CHR ''0'') (digits_of_nat (nat (DateFromTime t)))])"
proof -
  have m: "0 \<le> MonthFromTime t + 1" using fields_range(1) [of t] by simp
  have dd: "0 \<le> DateFromTime t" using fields_range(3) [of t] by simp
  have s: "slice0 xs (p + 1) = take (nat (p + 1)) xs" for xs :: "string list"
    using p by (simp add: slice0_def Let_def min_def)
  show ?thesis
    unfolding getDateStringAtPrecision_def Let_def t s
    using m dd
    by (simp add: getUTCFullYear_def getUTCMonth_def getUTCDate_def delimiterOf_def
        String_of_int_nonneg month_plus_one)
qed

lemma no_dash_digits: "\<forall>c \<in> set ds. is_digit c \<Longrightarrow> CHR ''-'' \<notin> set ds"
  using digit_not_special by blast

lemma padded_digits:
  "padStart n (CHR ''0'') (digits_of_nat k) \<noteq> []"
  "\<forall>c \<in> set (padStart n (CHR ''0'') (digits_of_nat k)). is_digit c"
  "nat_of_digits (padStart n (CHR ''0'') (digits_of_nat k)) = k"
  "CHR ''-'' \<notin> set (padStart n (CHR ''0'') (digits_of_nat k))"
  "parseInt10 (padStart n (CHR ''0'') (digits_of_nat k)) = Finite (real k)"
proof -
  show a: "padStart n (CHR ''0'') (digits_of_nat k) \<noteq> []"
    by (rule padStart_nonempty [OF digits_of_nat_nonempty])
  show b: "\<forall>c \<in> set (padStart n (CHR ''0'') (digits_of_nat k)). is_digit c"
    by (rule padStart_digits [OF digits_of_nat_digits])
  show c: "nat_of_digits (padStart n (CHR ''0'') (digits_of_nat k)) = k"
    by (simp add: nat_of_digits_padStart nat_of_digits_of_nat)
  show "CHR ''-'' \<notin> set (padStart n (CHR ''0'') (digits_of_nat k))"
    by (rule no_dash_digits [OF b])
  show "parseInt10 (padStart n (CHR ''0'') (digits_of_nat k)) = Finite (real k)"
    using parseInt10_digits [OF a b] c by simp
qed

lemma hd_padded_not_dash: "hd (padStart n (CHR ''0'') (digits_of_nat k)) \<noteq> CHR ''-''"
  using padded_digits(1,4) [of n k] by (metis hd_in_set)

lemma split3:
  assumes "CHR ''-'' \<notin> set a" "CHR ''-'' \<notin> set b" "CHR ''-'' \<notin> set c"
  shows "split a ''-'' = [a]"
    "split (a @ ''-'' @ b) ''-'' = [a, b]"
    "split (a @ ''-'' @ b @ ''-'' @ c) ''-'' = [a, b, c]"
  using assms by (simp_all add: split_def splitAux_dash splitAux_dash_no)


lemma not_bc: "A \<noteq> [] \<Longrightarrow> hd A \<noteq> CHR ''-'' \<Longrightarrow>
    (case A @ rest of c # _ \<Rightarrow> c = CHR ''-'' | [] \<Rightarrow> False) = False"
  by (cases A) simp_all

lemma parsedArguments_segments:
  assumes A: "A \<noteq> []" "hd A \<noteq> CHR ''-''"
    and vs: "map parseInt10 (split (A @ rest) ''-'') = Finite y # ms"
    and s: "s = (if neg then CHR ''-'' # A @ rest else A @ rest)"
  shows "parsedArguments s None =
      (ToIntegerArg (if neg then Finite (- y) else Finite y),
       ToIntegerArg (num_minus_one (numberOf (getNumber (numAt (Finite y # ms) 1) (JNum (Finite 1))))),
       ToIntegerArg (numberOf (getNumber (numAt (Finite y # ms) 2) (JNum (Finite 1)))))"
    and "getNumber (numAt (map parseInt10 (split
      (if (case s of c # _ \<Rightarrow> c = CHR ''-'' | [] \<Rightarrow> False) then drop 1 s else s)
      (delimiterOf None))) 0) JUndefined \<noteq> JUndefined"
proof -
  have bc: "(case s of c # _ \<Rightarrow> c = CHR ''-'' | [] \<Rightarrow> False) = neg"
    using not_bc [OF A, of rest] by (simp add: s)
  have ab: "(if neg then drop 1 s else s) = A @ rest" by (simp add: s)
  have y: "getNumber (numAt (Finite y # ms) 0) JUndefined = JNum (Finite y)"
    by (simp add: numAt_def)
  show "parsedArguments s None =
      (ToIntegerArg (if neg then Finite (- y) else Finite y),
       ToIntegerArg (num_minus_one (numberOf (getNumber (numAt (Finite y # ms) 1) (JNum (Finite 1))))),
       ToIntegerArg (numberOf (getNumber (numAt (Finite y # ms) 2) (JNum (Finite 1)))))"
    unfolding parsedArguments_def Let_def bc ab delimiterOf_def option.case vs y
    by simp
  show "getNumber (numAt (map parseInt10 (split
      (if (case s of c # _ \<Rightarrow> c = CHR ''-'' | [] \<Rightarrow> False) then drop 1 s else s)
      (delimiterOf None))) 0) JUndefined \<noteq> JUndefined"
    unfolding bc ab delimiterOf_def option.case vs y by simp
qed

lemma ToIntegerArg_int: "ToIntegerArg (Finite (real_of_int i)) = Some i"
  by simp

lemma parsedArguments_format:
  assumes t: "valueOf h d = Some t" and p: "0 \<le> p" "p \<le> 2"
  shows "parsedArguments (getDateStringAtPrecision h d p None) None =
      (Some (YearFromTime t), Some (if 1 \<le> p then MonthFromTime t else 0),
       Some (if 2 \<le> p then DateFromTime t else 1))"
    and "getNumber (numAt (map parseInt10 (split
      (if (case getDateStringAtPrecision h d p None of c # _ \<Rightarrow> c = CHR ''-'' | [] \<Rightarrow> False)
       then drop 1 (getDateStringAtPrecision h d p None)
       else getDateStringAtPrecision h d p None)
      (delimiterOf None))) 0) JUndefined \<noteq> JUndefined"
proof -
  define Y where "Y = YearFromTime t"
  define A where "A = (if Y < 0 then padStart 6 (CHR ''0'') (digits_of_nat (nat (- Y)))
     else padStart 4 (CHR ''0'') (digits_of_nat (nat Y)))"
  define B where "B = padStart 2 (CHR ''0'') (digits_of_nat (nat (MonthFromTime t + 1)))"
  define C where "C = padStart 2 (CHR ''0'') (digits_of_nat (nat (DateFromTime t)))"
  define rest where "rest = (if p = 0 then [] else if p = 1 then ''-'' @ B else ''-'' @ B @ ''-'' @ C)"
  have pc: "p = 0 \<or> p = 1 \<or> p = 2" using p by presburger
  have A: "A \<noteq> []" "hd A \<noteq> CHR ''-''" "CHR ''-'' \<notin> set A"
    "parseInt10 A = Finite (real (nat \<bar>Y\<bar>))"
    unfolding A_def using padded_digits(1,4,5) hd_padded_not_dash by (auto simp: abs_if)
  have B: "CHR ''-'' \<notin> set B" "parseInt10 B = Finite (real (nat (MonthFromTime t + 1)))"
    unfolding B_def using padded_digits(4,5) by auto
  have C: "CHR ''-'' \<notin> set C" "parseInt10 C = Finite (real (nat (DateFromTime t)))"
    unfolding C_def using padded_digits(4,5) by auto
  have f: "getDateStringAtPrecision h d p None = (if Y < 0 then CHR ''-'' # A @ rest else A @ rest)"
    unfolding format_valid [OF t p(1)] Y_def [symmetric] A_def B_def [symmetric]
      C_def [symmetric] rest_def
    using pc by (elim disjE) (simp_all add: numeral_2_eq_2 numeral_3_eq_3)
  define ms where "ms = (if p = 0 then [] else if p = 1 then [parseInt10 B]
     else [parseInt10 B, parseInt10 C])"
  have vs: "map parseInt10 (split (A @ rest) ''-'') = Finite (real (nat \<bar>Y\<bar>)) # ms"
    using pc split3 [OF A(3) B(1) C(1)] A(4)
    by (elim disjE) (simp_all add: rest_def ms_def)
  note pa = parsedArguments_segments [OF A(1,2) vs f]
  have m0: "0 \<le> MonthFromTime t" using fields_range(1) [of t] .
  have d1: "1 \<le> DateFromTime t" using fields_range(3) [of t] .
  have yy: "ToIntegerArg (if Y < 0 then Finite (- real (nat \<bar>Y\<bar>)) else Finite (real (nat \<bar>Y\<bar>)))
      = Some Y"
  proof (cases "Y < 0")
    case True
    then have "- real (nat \<bar>Y\<bar>) = real_of_int Y" by simp
    then show ?thesis using True by (simp only: if_True ToIntegerArg_int)
  next
    case False
    then have "real (nat \<bar>Y\<bar>) = real_of_int Y" by simp
    then show ?thesis using False by (simp only: if_False ToIntegerArg_int)
  qed
  have mm: "ToIntegerArg (num_minus_one (numberOf (getNumber (numAt (Finite (real (nat \<bar>Y\<bar>)) # ms) 1)
      (JNum (Finite 1))))) = Some (if 1 \<le> p then MonthFromTime t else 0)"
  proof -
    have "real (nat (MonthFromTime t + 1)) - 1 = real_of_int (MonthFromTime t)"
      using m0 by simp
    then show ?thesis
      using pc by (elim disjE) (simp_all add: ms_def numAt_def B(2) del: ToIntegerArg.simps,
          simp_all)
  qed
  have dd: "ToIntegerArg (numberOf (getNumber (numAt (Finite (real (nat \<bar>Y\<bar>)) # ms) 2)
      (JNum (Finite 1)))) = Some (if 2 \<le> p then DateFromTime t else 1)"
  proof -
    have "real (nat (DateFromTime t)) = real_of_int (DateFromTime t)"
      using d1 by simp
    then show ?thesis
      using pc by (elim disjE) (simp_all add: ms_def numAt_def C(2) del: ToIntegerArg.simps,
          simp_all)
  qed
  show "parsedArguments (getDateStringAtPrecision h d p None) None =
      (Some (YearFromTime t), Some (if 1 \<le> p then MonthFromTime t else 0),
       Some (if 2 \<le> p then DateFromTime t else 1))"
    unfolding pa(1) yy mm dd by (simp add: Y_def)
  show "getNumber (numAt (map parseInt10 (split
      (if (case getDateStringAtPrecision h d p None of c # _ \<Rightarrow> c = CHR ''-'' | [] \<Rightarrow> False)
       then drop 1 (getDateStringAtPrecision h d p None)
       else getDateStringAtPrecision h d p None)
      (delimiterOf None))) 0) JUndefined \<noteq> JUndefined"
    by (rule pa(2))
qed

section \<open>The date the parser assembles from a formatted string\<close>

lemma fromFields_cleared:
  "fromFields \<lparr>fYear = 0, fMonth = 0, fDate = 1, fHours = 0, fMinutes = 0, fSeconds = 0,
      fMilliseconds = 0\<rparr> = clearedDate"
  by (simp add: fromFields_def MakeDate_def MakeDay_def MakeTime_def DayFromYear_0
      DaysBeforeMonth_def msPerDay_def clearedDate_def)

lemma fieldsOf_cleared:
  "fieldsOf clearedDate =
     \<lparr>fYear = 0, fMonth = 0, fDate = 1, fHours = 0, fMinutes = 0, fSeconds = 0,
      fMilliseconds = 0\<rparr>"
proof -
  have "validFields \<lparr>fYear = 0, fMonth = 0, fDate = 1, fHours = 0, fMinutes = 0,
      fSeconds = 0, fMilliseconds = 0\<rparr>"
    by (simp add: validFields_def DaysInMonth_def)
  from fieldsOf_fromFields [OF this] show ?thesis by (simp add: fromFields_cleared)
qed

lemma zeroBelow_0_absorb: "0 \<le> q \<Longrightarrow> zeroBelow 0 (zeroBelow q f) = zeroBelow 0 f"
  by (simp add: zeroBelow_def)

lemma instant_0_le:
  assumes "0 \<le> q" "x \<le> maxTime"
  shows "instantAtPrecision 0 x \<le> instantAtPrecision q x"
proof -
  have le: "instantAtPrecision q x \<le> maxTime"
    using trunc_nonneg(2) [OF assms] assms(2) by linarith
  have "instantAtPrecision 0 (instantAtPrecision q x) = instantAtPrecision 0 x"
    by (simp add: instantAtPrecision_def [of 0] fieldsOf_instant zeroBelow_0_absorb [OF assms(1)])
  then show ?thesis using trunc_nonneg(2) [OF _ le, of 0] by simp
qed

lemma instant_in_range:
  assumes t: "\<bar>t\<bar> \<le> maxTime" and q: "0 \<le> q" and lo: "- maxTime \<le> instantAtPrecision 0 t"
  shows "TimeClip (instantAtPrecision q t) = Some (instantAtPrecision q t)"
proof -
  have x: "t \<le> maxTime" using t by linarith
  have "instantAtPrecision q t \<le> t" by (rule trunc_nonneg(2) [OF q x])
  moreover have "instantAtPrecision 0 t \<le> instantAtPrecision q t"
    by (rule instant_0_le [OF q x])
  ultimately show ?thesis using lo x by (simp add: TimeClip_def)
qed

lemma parsed_chain:
  assumes t: "\<bar>t\<bar> \<le> maxTime" and p: "0 \<le> p" "p \<le> 2"
    and lo: "- maxTime \<le> instantAtPrecision 0 t"
  shows "setUTCDate (Some (if 2 \<le> p then DateFromTime t else 1))
      (setUTCMonth (Some (if 1 \<le> p then MonthFromTime t else 0))
        (setUTCFullYear (Some (YearFromTime t)) (Some clearedDate)))
      = Some (instantAtPrecision p t)"
proof -
  define f where "f = fieldsOf t"
  have z0: "zeroBelow 0 f = (fieldsOf clearedDate)\<lparr>fYear := YearFromTime t\<rparr>"
    unfolding fieldsOf_cleared f_def by (simp add: zeroBelow_def fieldsOf_def)
  have a0: "setUTCFullYear (Some (YearFromTime t)) (Some clearedDate)
      = Some (instantAtPrecision 0 t)"
    using instant_in_range [OF t _ lo, of 0]
    by (simp add: setUTCFullYear_fields z0 [symmetric] instantAtPrecision_def f_def)
  define q1 :: int where "q1 = (if 1 \<le> p then 1 else 0)"
  define m where "m = (if 1 \<le> p then MonthFromTime t else 0)"
  define dd where "dd = (if 2 \<le> p then DateFromTime t else 1)"
  have r1: "0 \<le> q1" by (simp add: q1_def)
  have z1: "(zeroBelow 0 f)\<lparr>fMonth := m\<rparr> = zeroBelow q1 f"
    by (simp add: zeroBelow_def f_def fieldsOf_def q1_def m_def)
  have "setUTCMonth (Some m) (Some (instantAtPrecision 0 t))
      = TimeClip (fromFields ((fieldsOf (instantAtPrecision 0 t))\<lparr>fMonth := m\<rparr>))"
    by (rule setUTCMonth_fields)
  also have "\<dots> = TimeClip (fromFields (zeroBelow q1 f))"
    by (simp only: fieldsOf_instant f_def [symmetric] z1)
  also have "\<dots> = TimeClip (instantAtPrecision q1 t)"
    by (simp only: instantAtPrecision_def f_def)
  finally have a1: "setUTCMonth (Some m) (Some (instantAtPrecision 0 t))
      = Some (instantAtPrecision q1 t)"
    by (simp only: instant_in_range [OF t r1 lo])
  have pc: "p = 0 \<or> p = 1 \<or> p = 2" using p by presburger
  have z2: "(zeroBelow q1 f)\<lparr>fDate := dd\<rparr> = zeroBelow p f"
    using pc by (elim disjE) (simp_all add: zeroBelow_def f_def fieldsOf_def q1_def dd_def)
  have "\<bar>instantAtPrecision q1 t\<bar> \<le> maxTime"
    using instant_in_range [OF t r1 lo] by (simp add: TimeClip_def split: if_splits)
  then have "setUTCDate (Some dd) (Some (instantAtPrecision q1 t))
      = TimeClip (fromFields ((fieldsOf (instantAtPrecision q1 t))\<lparr>fDate := dd\<rparr>))"
    by (rule setUTCDate_fields)
  also have "\<dots> = TimeClip (fromFields (zeroBelow p f))"
    by (simp only: fieldsOf_instant f_def [symmetric] z2)
  also have "\<dots> = TimeClip (instantAtPrecision p t)"
    by (simp only: instantAtPrecision_def f_def)
  finally have a2: "setUTCDate (Some dd) (Some (instantAtPrecision q1 t))
      = Some (instantAtPrecision p t)"
    by (simp only: instant_in_range [OF t p(1) lo])
  show ?thesis unfolding m_def [symmetric] dd_def [symmetric] by (simp only: a0 a1 a2)
qed

section \<open>Numeric coercion\<close>

text \<open>
  C10. The claim: \<^verbatim>\<open>getNumber(value, fallback)\<close> is the value when it is a finite number
  and the fallback otherwise, the infinities included. The guard of the code only
  excludes NaN: an infinity is returned as it is.
\<close>

theorem getNumber_infinity_returned:
  "getNumber (JNum PosInf) (JNum (Finite 0)) = JNum PosInf
   \<and> \<not> is_finite_number (JNum PosInf)
   \<and> JNum PosInf \<noteq> JNum (Finite 0)"
  by simp

text \<open>
  C10, as the code has it: the value is returned unchanged when it is a Number other
  than NaN (finite or infinite), and the fallback in every other case.
\<close>

theorem getNumber_number_not_NaN:
  "getNumber v fallback = (if typeof_number v \<and> v \<noteq> JNum NaN then v else fallback)"
proof (cases v)
  case (JNum n)
  then show ?thesis by (cases n) simp_all
qed simp_all


section \<open>Resolution names and precisions\<close>

text \<open>
  C2. The claim: the eight resolution names map onto the seven ordinals 0 to 6,
  injectively but for the alias, with "millisecond" at 6. The table of the code gives
  "millisecond" the ordinal 5 of "second", and no name maps to 6.
\<close>

theorem getPrecisionByResolution_millisecond:
  "getPrecisionByResolution ''millisecond'' = Some 5
   \<and> getPrecisionByResolution ''millisecond'' = getPrecisionByResolution ''second''
   \<and> Some 6 \<notin> set (map getPrecisionByResolution AllResolutionNames)"
  by (simp add: getPrecisionByResolution_def ResolutionToPrecisionMapping_def
      AllResolutionNames_def)


section \<open>Clamping a date into a range\<close>

text \<open>
  C9. \<^verbatim>\<open>clampDateWithinRange\<close> compares time values. A date later than the maximum
  is replaced by the maximum; the candidate so obtained is replaced by the minimum when
  it is earlier than the minimum; otherwise the date object itself is returned. With a
  maximum earlier than the minimum, a date later than the maximum yields the minimum.
\<close>

theorem clampDateWithinRange_cases:
  "(num_gt (valueOf h d) (valueOf h maxDate) \<and> \<not> num_lt (valueOf h maxDate) (valueOf h minDate)
      \<longrightarrow> clampDateWithinRange h d minDate maxDate = maxDate)
   \<and> (num_gt (valueOf h d) (valueOf h maxDate) \<and> num_lt (valueOf h maxDate) (valueOf h minDate)
      \<longrightarrow> clampDateWithinRange h d minDate maxDate = minDate)
   \<and> (\<not> num_gt (valueOf h d) (valueOf h maxDate) \<and> num_lt (valueOf h d) (valueOf h minDate)
      \<longrightarrow> clampDateWithinRange h d minDate maxDate = minDate)
   \<and> (\<not> num_gt (valueOf h d) (valueOf h maxDate) \<and> \<not> num_lt (valueOf h d) (valueOf h minDate)
      \<longrightarrow> clampDateWithinRange h d minDate maxDate = d)"
  by (simp add: clampDateWithinRange_def)

theorem clampDateWithinRange_cases_witness:
  "clampDateWithinRange [Some 50, Some 10, Some 20] 0 1 2 = 2
   \<and> clampDateWithinRange [Some 50, Some 20, Some 10] 0 1 2 = 1
   \<and> clampDateWithinRange [Some 5, Some 10, Some 20] 0 1 2 = 1
   \<and> clampDateWithinRange [Some 15, Some 10, Some 20] 0 1 2 = 0"
  using clampDateWithinRange_cases [of "[Some 50, Some 10, Some 20]" 0 2 1]
    clampDateWithinRange_cases [of "[Some 50, Some 20, Some 10]" 0 2 1]
    clampDateWithinRange_cases [of "[Some 5, Some 10, Some 20]" 0 2 1]
    clampDateWithinRange_cases [of "[Some 15, Some 10, Some 20]" 0 2 1]
  by (simp add: valueOf_def)

section \<open>Truncation: fields, frame and idempotence\<close>

lemma getter_cases:
  assumes "i < 7"
  shows "(fieldGetters ! i) (Some x) =
     Some ([fYear (fieldsOf x), fMonth (fieldsOf x), fDate (fieldsOf x), fHours (fieldsOf x),
            fMinutes (fieldsOf x), fSeconds (fieldsOf x), fMilliseconds (fieldsOf x)] ! i)"
proof -
  have "i = 0 \<or> i = 1 \<or> i = 2 \<or> i = 3 \<or> i = 4 \<or> i = 5 \<or> i = 6" using assms by presburger
  then show ?thesis
    by (elim disjE; simp add: fieldGetters_def offsetPrecisions_def fieldsOf_def
        getUTCFullYear_def getUTCMonth_def getUTCDate_def getUTCHours_def getUTCMinutes_def
        getUTCSeconds_def getUTCMilliseconds_def)
qed

text \<open>
  C3. The claim: for every date and every precision 0 to 6, \<^verbatim>\<open>getDateAtPrecision\<close> puts
  every finer field at its zero point, keeps every other field, does not mutate its
  input and returns a new object. It fails at the lower end of the range of time values:
  the earliest date, -271821-04-20T00:00:00Z, truncated to the year would be
  -271821-01-01, which no Date can hold, and the result is an invalid date whose year is
  NaN. At precision 6 no handler runs and the reduction returns its initial value, the
  input object itself.
\<close>

theorem getDateAtPrecision_claim_counterexample:
  "getUTCFullYear (valueOf [Some (- 8640000000000000)] 0) = Some (- 271821)
   \<and> getUTCFullYear (valueOf (snd (getDateAtPrecision [Some (- 8640000000000000)] 0 0))
        (fst (getDateAtPrecision [Some (- 8640000000000000)] 0 0))) = None
   \<and> fst (getDateAtPrecision [Some 0] 0 6) = 0"
  by code_simp

text \<open>
  C3, as the code has it. For a valid date \<open>d\<close> and a precision 0 to 6 such that the
  truncated instant is within the range of time values, the result holds that instant:
  every field finer than the precision is at its zero point and every other field is
  that of \<open>d\<close>; no object allocated before the call is changed, \<open>d\<close> included; and for a
  precision below 6 the result is an object allocated by the call.
\<close>

theorem getDateAtPrecision_fields:
  assumes d: "d < length h"
    and t: "valueOf h d = Some t" "\<bar>t\<bar> \<le> maxTime"
    and p: "0 \<le> p" "p \<le> 6"
    and rep: "- maxTime \<le> instantAtPrecision p t"
    and run: "getDateAtPrecision h d p = (r, h')"
  shows "valueOf h' r = Some (instantAtPrecision p t)
    \<and> (\<forall>i<7. (fieldGetters ! i) (valueOf h' r) =
          (if p < int i then Some (zeroPoints ! i) else (fieldGetters ! i) (valueOf h d)))
    \<and> valueOf h' d = valueOf h d
    \<and> take (length h) h' = h
    \<and> (p < 6 \<longrightarrow> length h \<le> r \<and> r < length h')"
proof -
  note hp = getDateAtPrecision_heap [OF run]
  have le: "instantAtPrecision p t \<le> maxTime"
    using trunc_nonneg(2) [OF p(1), of t] t(2) by linarith
  have v: "valueOf h' r = Some (instantAtPrecision p t)"
    using hp(1) truncValue_valid [OF p(1) t(2)] rep le by (simp add: t(1) TimeClip_def)
  have f: "fieldsOf (instantAtPrecision p t) = zeroBelow p (fieldsOf t)"
    by (rule fieldsOf_instant)
  have g: "(fieldGetters ! i) (valueOf h' r) =
          (if p < int i then Some (zeroPoints ! i) else (fieldGetters ! i) (valueOf h d))"
    if i: "i < 7" for i
  proof -
    have c: "i = 0 \<or> i = 1 \<or> i = 2 \<or> i = 3 \<or> i = 4 \<or> i = 5 \<or> i = 6"
      using i by presburger
    show ?thesis
      unfolding v t(1) getter_cases [OF i] f
      using c by (elim disjE; simp add: zeroBelow_def zeroPoints_def truncPrecisions_def)
  qed
  have u: "valueOf h' d = valueOf h d"
    using hp(2) d unfolding valueOf_def by (metis nth_take)
  show ?thesis using v g u hp(2,3) by blast
qed

text \<open>C3, an instance: 2021-01-31T00:00:00.123Z at the precision of the month.\<close>

theorem getDateAtPrecision_fields_witness:
  "getDateAtPrecision [Some 1612051200123] 0 1 =
       (5, [Some 1612051200123, Some 1609459200123, Some 1609459200123, Some 1609459200123,
            Some 1609459200123, Some 1609459200000])
   \<and> valueOf [Some 1612051200123, Some 1609459200123, Some 1609459200123, Some 1609459200123,
            Some 1609459200123, Some 1609459200000] 5 = Some (instantAtPrecision 1 1612051200123)
   \<and> (fieldGetters ! 2) (valueOf [Some 1612051200123, Some 1609459200123,
            Some 1609459200123, Some 1609459200123, Some 1609459200123, Some 1609459200000] 5)
       = Some 1
   \<and> (fieldGetters ! 1) (valueOf [Some 1612051200123, Some 1609459200123,
            Some 1609459200123, Some 1609459200123, Some 1609459200123, Some 1609459200000] 5)
       = (fieldGetters ! 1) (valueOf [Some 1612051200123] 0)"
proof -
  have run: "getDateAtPrecision [Some 1612051200123] 0 1 =
       (5, [Some 1612051200123, Some 1609459200123, Some 1609459200123, Some 1609459200123,
            Some 1609459200123, Some 1609459200000])"
    by code_simp
  have rep: "- maxTime \<le> instantAtPrecision 1 1612051200123"
    by code_simp
  have d: "0 < length [Some (1612051200123::int)]" by simp
  have t: "valueOf [Some 1612051200123] 0 = Some 1612051200123" "\<bar>1612051200123\<bar> \<le> maxTime"
    by (simp_all add: valueOf_def maxTime_def)
  have p: "(0::int) \<le> 1" "(1::int) \<le> 6" by simp_all
  note th = getDateAtPrecision_fields [OF d t p rep run]
  have v: "valueOf [Some 1612051200123, Some 1609459200123, Some 1609459200123,
            Some 1609459200123, Some 1609459200123, Some 1609459200000] 5
       = Some (instantAtPrecision 1 1612051200123)"
    using th by blast
  have a: "\<forall>i<7. (fieldGetters ! i) (valueOf [Some 1612051200123, Some 1609459200123,
            Some 1609459200123, Some 1609459200123, Some 1609459200123, Some 1609459200000] 5) =
          (if 1 < int i then Some (zeroPoints ! i)
           else (fieldGetters ! i) (valueOf [Some 1612051200123] 0))"
    using th by blast
  have f2: "(fieldGetters ! 2) (valueOf [Some 1612051200123, Some 1609459200123,
            Some 1609459200123, Some 1609459200123, Some 1609459200123, Some 1609459200000] 5)
       = Some 1"
    using a [rule_format, of 2] by (simp add: zeroPoints_def truncPrecisions_def)
  have f1: "(fieldGetters ! 1) (valueOf [Some 1612051200123, Some 1609459200123,
            Some 1609459200123, Some 1609459200123, Some 1609459200123, Some 1609459200000] 5)
       = (fieldGetters ! 1) (valueOf [Some 1612051200123] 0)"
    using a [rule_format, of 1] by simp
  show ?thesis using run v f2 f1 by blast
qed

text \<open>
  C8. Truncation is idempotent on the time values: truncating the result of
  \<^verbatim>\<open>getDateAtPrecision\<close> again at the same precision yields an object with the same time
  value (the same instant, or again an invalid date), for every Date object and every
  precision.
\<close>

theorem getDateAtPrecision_idempotent:
  assumes "valid_timevalue (valueOf h d)"
    and "getDateAtPrecision h d p = (r1, h1)"
    and "getDateAtPrecision h1 r1 p = (r2, h2)"
  shows "valueOf h2 r2 = valueOf h1 r1"
  using getDateAtPrecision_heap(1) [OF assms(2)] getDateAtPrecision_heap(1) [OF assms(3)]
    truncValue_idem [OF assms(1)] by simp

text \<open>C8, an instance: 2021-01-31T00:00:00.123Z truncated twice to the month.\<close>

theorem getDateAtPrecision_idempotent_witness:
  "getDateAtPrecision [Some 1612051200123] 0 1 =
       (5, [Some 1612051200123, Some 1609459200123, Some 1609459200123, Some 1609459200123,
            Some 1609459200123, Some 1609459200000])
   \<and> fst (getDateAtPrecision [Some 1612051200123, Some 1609459200123, Some 1609459200123,
            Some 1609459200123, Some 1609459200123, Some 1609459200000] 5 1) = 10
   \<and> valueOf (snd (getDateAtPrecision [Some 1612051200123, Some 1609459200123,
            Some 1609459200123, Some 1609459200123, Some 1609459200123, Some 1609459200000] 5 1)) 10
       = Some 1609459200000"
proof -
  have run: "getDateAtPrecision [Some 1612051200123] 0 1 =
       (5, [Some 1612051200123, Some 1609459200123, Some 1609459200123, Some 1609459200123,
            Some 1609459200123, Some 1609459200000])"
    by code_simp
  have r2: "fst (getDateAtPrecision [Some 1612051200123, Some 1609459200123, Some 1609459200123,
            Some 1609459200123, Some 1609459200123, Some 1609459200000] 5 1) = 10"
    by code_simp
  have v: "valid_timevalue (valueOf [Some 1612051200123] 0)"
    by (simp add: valueOf_def maxTime_def)
  show ?thesis
    using getDateAtPrecision_idempotent [OF v run surjective_pairing] run r2
    by (simp add: valueOf_def)
qed

section \<open>Offset at a precision: what is kept and what is carried\<close>

text \<open>
  C4. The claim: for every date, precision and integer offset, \<^verbatim>\<open>offsetDateAtPrecision\<close>
  changes only the field of the precision (with rollover into coarser fields) and leaves
  every finer field as it was. It fails in two ways. For the month and the year the
  setter keeps the day of the month, and when the month reached has no such day the date
  overflows into the next month: one month after 2021-01-31T00:00:00Z is
  2021-03-03T00:00:00Z, so the day, finer than the month, goes from 31 to 3. For an offset
  so large that the time of the day passes 2^53 milliseconds the setter rounds: 9007199254741
  seconds after the time value -8639999999999999, whose millisecond is 1, is the time
  value 367199254741000, whose millisecond is 0.
\<close>

theorem offsetDateAtPrecision_month_end_counterexample:
  "offsetDateAtPrecision [Some 1612051200000] 0 1 1
     = Inr (1, [Some 1612051200000, Some 1614729600000])
   \<and> getUTCDate (Some 1612051200000) = Some 31
   \<and> getUTCDate (Some 1614729600000) = Some 3
   \<and> offsetDateAtPrecision [Some (- 8639999999999999)] 0 5 9007199254741
     = Inr (1, [Some (- 8639999999999999), Some 367199254741000])
   \<and> getUTCMilliseconds (Some (- 8639999999999999)) = Some 1
   \<and> getUTCMilliseconds (Some 367199254741000) = Some 0"
  by code_simp

text \<open>
  C4, as the code has it. For a date \<open>d\<close> with a valid time value \<open>t\<close>, a precision 0 to 6
  and an integer offset, the call allocates a new Date object and changes no existing
  one, whatever the offset. Let the offset, for a precision from the hour to the
  millisecond, be such that its magnitude times the length of the unit is at most
  2^53 less the length of a day, so that the setter computes exactly; for the year, the
  month and the day every offset is admitted. Then the time value of the new object is
  that of the native setter (an invalid date when out of range): from the day downwards
  the instant plus the offset times the length of the unit; for the month and the year
  the instant with that field replaced, the month carrying into the year. When the result
  is valid, the fields of the time of day finer than the precision are those of \<open>d\<close>; and
  for the month and the year the fields are those of \<open>d\<close> with the month and the year
  reached, where the day of the month is kept if and only if the month reached has that
  day, the date otherwise being carried into the month after it.
\<close>

theorem offsetDateAtPrecision_frame:
  assumes d: "d < length h" and t: "valueOf h d = Some t" "\<bar>t\<bar> \<le> maxTime"
    and p: "0 \<le> p" "p \<le> 6"
  shows "\<exists>v. offsetDateAtPrecision h d p off = Inr (length h, h @ [v])
     \<and> valueOf (h @ [v]) d = valueOf h d
     \<and> ((3 \<le> p \<longrightarrow> \<bar>off\<bar> * fieldUnit p \<le> 2 ^ 53 - msPerDay) \<longrightarrow>
           (2 \<le> p \<longrightarrow> v = TimeClip (t + off * fieldUnit p))
         \<and> (p = 1 \<longrightarrow>
               v = TimeClip (fromFields ((fieldsOf t)\<lparr>fMonth := MonthFromTime t + off\<rparr>)))
         \<and> (p = 0 \<longrightarrow>
               v = TimeClip (fromFields ((fieldsOf t)\<lparr>fYear := YearFromTime t + off\<rparr>)))
         \<and> (\<forall>x. v = Some x \<longrightarrow>
               (\<forall>i<7. max p 2 < int i \<longrightarrow>
                  (fieldGetters ! i) v = (fieldGetters ! i) (Some t))
             \<and> (p = 1 \<longrightarrow>
                   fieldsOf x
                     = carriedFields (fieldsOf t) (YearFromTime t) (MonthFromTime t + off)
                 \<and> (getUTCDate v = getUTCDate (Some t))
                     = (DateFromTime t
                          \<le> DaysInMonth (YearFromTime t + (MonthFromTime t + off) div 12)
                               ((MonthFromTime t + off) mod 12)))
             \<and> (p = 0 \<longrightarrow>
                   fieldsOf x
                     = carriedFields (fieldsOf t) (YearFromTime t + off) (MonthFromTime t)
                 \<and> (getUTCDate v = getUTCDate (Some t))
                     = (DateFromTime t
                          \<le> DaysInMonth (YearFromTime t + off) (MonthFromTime t)))))"
proof -
  define v where "v = fst (offsetPrecisions ! nat p)
        (num_add (snd (offsetPrecisions ! nat p) (valueOf h d)) (Some off)) (valueOf h d)"
  have run: "offsetDateAtPrecision h d p off = Inr (length h, h @ [v])"
    unfolding v_def by (rule offsetDateAtPrecision_unfold [OF p])
  have keep: "valueOf (h @ [v]) d = valueOf h d"
    using d by (simp add: valueOf_def nth_append)
  have p1: "p = 1 \<longrightarrow> v = TimeClip (fromFields ((fieldsOf t)\<lparr>fMonth := MonthFromTime t + off\<rparr>))"
    unfolding v_def t(1)
    by (simp del: num_add.simps add: offsetPrecisions_def getUTCMonth_def
        offset_month_value [OF t(2)])
  have p0: "p = 0 \<longrightarrow> v = TimeClip (fromFields ((fieldsOf t)\<lparr>fYear := YearFromTime t + off\<rparr>))"
    unfolding v_def t(1)
    by (simp del: num_add.simps add: offsetPrecisions_def getUTCFullYear_def offset_year_value)
  have p2: "p = 2 \<longrightarrow> v = TimeClip (t + off * fieldUnit p)"
    unfolding v_def t(1)
    by (simp del: num_add.simps add: offsetPrecisions_def getUTCDate_def fieldUnit_def
        offset_date_value [OF t(2)])
  have main: "(2 \<le> p \<longrightarrow> v = TimeClip (t + off * fieldUnit p))
         \<and> (\<forall>x. v = Some x \<longrightarrow>
               (\<forall>i<7. max p 2 < int i \<longrightarrow>
                  (fieldGetters ! i) v = (fieldGetters ! i) (Some t))
             \<and> (p = 1 \<longrightarrow>
                   fieldsOf x
                     = carriedFields (fieldsOf t) (YearFromTime t) (MonthFromTime t + off)
                 \<and> (getUTCDate v = getUTCDate (Some t))
                     = (DateFromTime t
                          \<le> DaysInMonth (YearFromTime t + (MonthFromTime t + off) div 12)
                               ((MonthFromTime t + off) mod 12)))
             \<and> (p = 0 \<longrightarrow>
                   fieldsOf x
                     = carriedFields (fieldsOf t) (YearFromTime t + off) (MonthFromTime t)
                 \<and> (getUTCDate v = getUTCDate (Some t))
                     = (DateFromTime t
                          \<le> DaysInMonth (YearFromTime t + off) (MonthFromTime t))))"
    if E: "3 \<le> p \<longrightarrow> \<bar>off\<bar> * fieldUnit p \<le> 2 ^ 53 - msPerDay"
  proof -
    have b: "3 \<le> p \<Longrightarrow> \<bar>off\<bar> * fieldUnit p \<le> 9007199168340992"
      using E by (simp add: msPerDay_def)
    have p6: "p = 6 \<longrightarrow> v = TimeClip (t + off * fieldUnit p)"
    proof
      assume e: "p = 6"
      have "\<bar>off\<bar> \<le> 9007199168340992" using b e by (simp add: fieldUnit_def)
      from offset_time_value(1) [OF t(2) this] show "v = TimeClip (t + off * fieldUnit p)"
        unfolding v_def t(1) e
        by (simp del: num_add.simps add: offsetPrecisions_def getUTCMilliseconds_def
            fieldUnit_def)
    qed
    have p5: "p = 5 \<longrightarrow> v = TimeClip (t + off * fieldUnit p)"
    proof
      assume e: "p = 5"
      have "\<bar>off\<bar> * msPerSecond \<le> 9007199168340992" using b e by (simp add: fieldUnit_def)
      from offset_time_value(2) [OF t(2) this] show "v = TimeClip (t + off * fieldUnit p)"
        unfolding v_def t(1) e
        by (simp del: num_add.simps add: offsetPrecisions_def getUTCSeconds_def fieldUnit_def)
    qed
    have p4: "p = 4 \<longrightarrow> v = TimeClip (t + off * fieldUnit p)"
    proof
      assume e: "p = 4"
      have "\<bar>off\<bar> * msPerMinute \<le> 9007199168340992" using b e by (simp add: fieldUnit_def)
      from offset_time_value(3) [OF t(2) this] show "v = TimeClip (t + off * fieldUnit p)"
        unfolding v_def t(1) e
        by (simp del: num_add.simps add: offsetPrecisions_def getUTCMinutes_def fieldUnit_def)
    qed
    have p3: "p = 3 \<longrightarrow> v = TimeClip (t + off * fieldUnit p)"
    proof
      assume e: "p = 3"
      have "\<bar>off\<bar> * msPerHour \<le> 9007199168340992" using b e by (simp add: fieldUnit_def)
      from offset_time_value(4) [OF t(2) this] show "v = TimeClip (t + off * fieldUnit p)"
        unfolding v_def t(1) e
        by (simp del: num_add.simps add: offsetPrecisions_def getUTCHours_def fieldUnit_def)
    qed
    have hi: "2 \<le> p \<longrightarrow> v = TimeClip (t + off * fieldUnit p)"
      using precision_cases7 [OF p] p2 p3 p4 p5 p6 by auto
    have rest: "(\<forall>i<7. max p 2 < int i \<longrightarrow>
                  (fieldGetters ! i) v = (fieldGetters ! i) (Some t))
             \<and> (p = 1 \<longrightarrow>
                   fieldsOf x
                     = carriedFields (fieldsOf t) (YearFromTime t) (MonthFromTime t + off)
                 \<and> (getUTCDate v = getUTCDate (Some t))
                     = (DateFromTime t
                          \<le> DaysInMonth (YearFromTime t + (MonthFromTime t + off) div 12)
                               ((MonthFromTime t + off) mod 12)))
             \<and> (p = 0 \<longrightarrow>
                   fieldsOf x
                     = carriedFields (fieldsOf t) (YearFromTime t + off) (MonthFromTime t)
                 \<and> (getUTCDate v = getUTCDate (Some t))
                     = (DateFromTime t
                          \<le> DaysInMonth (YearFromTime t + off) (MonthFromTime t)))"
      if x: "v = Some x" for x
    proof -
      have c: "TimeClip y = Some x \<Longrightarrow> y = x" for y
        by (simp add: TimeClip_def split: if_splits)
      have hx: "2 \<le> p \<longrightarrow> x = t + off * fieldUnit p"
        using hi x c by auto
      have x1: "p = 1 \<Longrightarrow> x = fromFields ((fieldsOf t)\<lparr>fMonth := MonthFromTime t + off\<rparr>)"
        using p1 x c by auto
      have x0: "p = 0 \<Longrightarrow> x = fromFields ((fieldsOf t)\<lparr>fYear := YearFromTime t + off\<rparr>)"
        using p0 x c by auto
      have w: "TimeWithinDay (fromFields g) = TimeWithinDay t"
        if "fHours g = fHours (fieldsOf t)" "fMinutes g = fMinutes (fieldsOf t)"
          "fSeconds g = fSeconds (fieldsOf t)" "fMilliseconds g = fMilliseconds (fieldsOf t)" for g
        using TimeWithinDay_fromFields_eq [OF validFields_fieldsOf that]
        by (simp add: fromFields_fieldsOf)
      have lo: "p \<le> 1 \<longrightarrow> TimeWithinDay x = TimeWithinDay t"
      proof
        assume "p \<le> 1"
        then have "p = 0 \<or> p = 1" using p(1) by presburger
        then show "TimeWithinDay x = TimeWithinDay t"
          using x0 x1 w by (elim disjE) simp_all
      qed
      have a: "\<forall>i<7. max p 2 < int i \<longrightarrow> (fieldGetters ! i) v = (fieldGetters ! i) (Some t)"
        unfolding x by (rule finer_time_fields [OF p hx lo])
      have g: "(getUTCDate v = getUTCDate (Some t)) = (fDate (fieldsOf x) = fDate (fieldsOf t))"
        by (simp add: x getUTCDate_def fieldsOf_def)
      have m: "MonthFromTime t div 12 = 0" "MonthFromTime t mod 12 = MonthFromTime t"
        using fields_range(1,2) [of t] by simp_all
      have f1: "fieldsOf x = carriedFields (fieldsOf t) (YearFromTime t) (MonthFromTime t + off)"
        if "p = 1"
      proof -
        have "(fieldsOf t)\<lparr>fYear := YearFromTime t, fMonth := MonthFromTime t + off\<rparr>
            = (fieldsOf t)\<lparr>fMonth := MonthFromTime t + off\<rparr>"
          by (simp add: fieldsOf_def)
        then show ?thesis
          using carried_fields [where f = "fieldsOf t" and y = "YearFromTime t"
              and m = "MonthFromTime t + off", OF validFields_fieldsOf]
            x1 [OF that] by simp
      qed
      have f0: "fieldsOf x = carriedFields (fieldsOf t) (YearFromTime t + off) (MonthFromTime t)"
        if "p = 0"
      proof -
        have "(fieldsOf t)\<lparr>fYear := YearFromTime t + off, fMonth := MonthFromTime t\<rparr>
            = (fieldsOf t)\<lparr>fYear := YearFromTime t + off\<rparr>"
          by (simp add: fieldsOf_def)
        then show ?thesis
          using carried_fields [where f = "fieldsOf t" and y = "YearFromTime t + off"
              and m = "MonthFromTime t", OF validFields_fieldsOf]
            x0 [OF that] by simp
      qed
      have fd: "fDate (fieldsOf t) = DateFromTime t" by (simp add: fieldsOf_def)
      have d1: "(getUTCDate v = getUTCDate (Some t))
          = (DateFromTime t \<le> DaysInMonth (YearFromTime t + (MonthFromTime t + off) div 12)
                               ((MonthFromTime t + off) mod 12))" if "p = 1"
        using carried_date [of "fieldsOf t" "YearFromTime t" "MonthFromTime t + off"]
        by (simp add: g f1 [OF that] fd)
      have d0: "(getUTCDate v = getUTCDate (Some t))
          = (DateFromTime t \<le> DaysInMonth (YearFromTime t + off) (MonthFromTime t))" if "p = 0"
        using carried_date [of "fieldsOf t" "YearFromTime t + off" "MonthFromTime t"]
        by (simp add: g f0 [OF that] fd m)
      show ?thesis using a f1 f0 d1 d0 by blast
    qed
    show ?thesis using hi rest by blast
  qed
  show ?thesis
    using run keep p1 p0 main by blast
qed

text \<open>
  C4, two instances: five hours after 2021-01-31T00:00:00Z, and one month after it,
  which is carried to the third of March.
\<close>

theorem offsetDateAtPrecision_frame_witness:
  "offsetDateAtPrecision [Some 1612051200000] 0 3 5
     = Inr (1, [Some 1612051200000, Some 1612069200000])
   \<and> TimeClip (1612051200000 + 5 * fieldUnit 3) = Some 1612069200000
   \<and> (fieldGetters ! 4) (Some 1612069200000) = (fieldGetters ! 4) (Some 1612051200000)
   \<and> valueOf [Some 1612051200000, Some 1612069200000] 0 = valueOf [Some 1612051200000] 0
   \<and> offsetDateAtPrecision [Some 1612051200000] 0 1 1
     = Inr (1, [Some 1612051200000, Some 1614729600000])
   \<and> fieldsOf 1614729600000
     = carriedFields (fieldsOf 1612051200000) (YearFromTime 1612051200000)
         (MonthFromTime 1612051200000 + 1)
   \<and> fieldsOf 1614729600000
     = \<lparr>fYear = 2021, fMonth = 2, fDate = 3, fHours = 0, fMinutes = 0, fSeconds = 0,
        fMilliseconds = 0\<rparr>"
proof -
  have d: "0 < length [Some (1612051200000::int)]" by simp
  have t: "valueOf [Some 1612051200000] 0 = Some 1612051200000" "\<bar>1612051200000\<bar> \<le> maxTime"
    by (simp_all add: valueOf_def maxTime_def)
  have p: "(0::int) \<le> 3" "(3::int) \<le> 6" by simp_all
  have q: "(0::int) \<le> 1" "(1::int) \<le> 6" by simp_all
  have e: "(3::int) \<le> 3 \<longrightarrow> \<bar>5\<bar> * fieldUnit 3 \<le> 2 ^ 53 - msPerDay"
    by (simp add: fieldUnit_def msPerHour_def msPerDay_def)
  have e1: "(3::int) \<le> 1 \<longrightarrow> \<bar>1\<bar> * fieldUnit 1 \<le> 2 ^ 53 - msPerDay"
    by simp
  obtain v where run: "offsetDateAtPrecision [Some 1612051200000] 0 3 5
        = Inr (length [Some (1612051200000::int)], [Some 1612051200000] @ [v])"
    and keep: "valueOf ([Some 1612051200000] @ [v]) 0 = valueOf [Some 1612051200000] 0"
    and hi: "(2::int) \<le> 3 \<longrightarrow> v = TimeClip (1612051200000 + 5 * fieldUnit 3)"
    and fin: "\<forall>x. v = Some x \<longrightarrow>
          (\<forall>i<7. max 3 2 < int i \<longrightarrow>
             (fieldGetters ! i) v = (fieldGetters ! i) (Some 1612051200000))"
    using offsetDateAtPrecision_frame [OF d t p, of 5] e by blast
  obtain u where run1: "offsetDateAtPrecision [Some 1612051200000] 0 1 1
        = Inr (length [Some (1612051200000::int)], [Some 1612051200000] @ [u])"
    and car: "\<forall>x. u = Some x \<longrightarrow> ((1::int) = 1 \<longrightarrow>
          fieldsOf x = carriedFields (fieldsOf 1612051200000) (YearFromTime 1612051200000)
             (MonthFromTime 1612051200000 + 1))"
    using offsetDateAtPrecision_frame [OF d t q, of 1] e1 by blast
  have c: "offsetDateAtPrecision [Some 1612051200000] 0 3 5
     = Inr (1, [Some 1612051200000, Some 1612069200000])"
    by code_simp
  have c1: "offsetDateAtPrecision [Some 1612051200000] 0 1 1
     = Inr (1, [Some 1612051200000, Some 1614729600000])"
    by code_simp
  have v: "v = Some 1612069200000" using run c by simp
  have u: "u = Some 1614729600000" using run1 c1 by simp
  have f: "(fieldGetters ! 4) (Some 1612069200000) = (fieldGetters ! 4) (Some 1612051200000)"
    using fin [rule_format, OF v, of 4] v by simp
  have g: "fieldsOf 1614729600000
     = carriedFields (fieldsOf 1612051200000) (YearFromTime 1612051200000)
         (MonthFromTime 1612051200000 + 1)"
    using car [rule_format, OF u] by simp
  have k: "fieldsOf 1614729600000
     = \<lparr>fYear = 2021, fMonth = 2, fDate = 3, fHours = 0, fMinutes = 0, fSeconds = 0,
        fMilliseconds = 0\<rparr>"
    by code_simp
  show ?thesis using c c1 hi keep f v g k by simp
qed

section \<open>The parser: the one failure\<close>

text \<open>
  C5. The claim: \<^verbatim>\<open>parseDateStringWithPrecision(s, p)\<close> raises the malformed-date-string
  error if and only if the year segment of \<open>s\<close> is absent or not numeric. It fails for a
  year segment that only begins with digits: \<^verbatim>\<open>12ab\<close> is not numeric, but \<^verbatim>\<open>parseInt\<close> reads
  12 from it, and \<^verbatim>\<open>parseDateStringWithPrecision('12ab-03', 2)\<close> raises nothing and returns
  the date 0012-03-01T00:00:00Z.
\<close>

theorem parseDateStringWithPrecision_prefix_counterexample:
  "yearSegment ''12ab-03'' = ''12ab''
   \<and> decimalNumeral ''12ab'' = False
   \<and> parseDateStringWithPrecision [] 0 ''12ab-03'' 2 None
       = Inr (11,
          [Some 0, Some (- 62167219200000), Some (- 62167219200000),
           Some (- 62167219200000), Some (- 62167219200000),
           Some (- 62167219200000), Some (- 62167219200000),
           Some (- 61783344000000), Some (- 61783344000000),
           Some (- 61783344000000), Some (- 61783344000000),
           Some (- 61783344000000)])
   \<and> getUTCFullYear (Some (- 61783344000000)) = Some 12
   \<and> getUTCMonth (Some (- 61783344000000)) = Some 2
   \<and> getUTCDate (Some (- 61783344000000)) = Some 1"
proof -
  have y: "yearSegment ''12ab-03'' = ''12ab''" by code_simp
  have n: "decimalNumeral ''12ab'' = False" by code_simp
  have sp: "split ''12ab-03'' ''-'' = [''12ab'', ''03'']" by code_simp
  have d1: "takeWhile is_digit ''12ab'' = ''12''" "takeWhile is_digit ''03'' = ''03''"
    "dropWhile is_whitespace ''12ab'' = ''12ab''" "dropWhile is_whitespace ''03'' = ''03''"
    "nat_of_digits ''12'' = 12" "nat_of_digits ''03'' = 3"
    by code_simp+
  have pi: "parseInt10 ''12ab'' = Finite 12" "parseInt10 ''03'' = Finite 3"
    by (simp_all add: parseInt10_def Let_def d1 del: takeWhile.simps dropWhile.simps)
  have g1: "getDateAtPrecision [Some 0] 0 (- 1) =
      (7, [Some 0, Some (- 62167219200000), Some (- 62167219200000),
           Some (- 62167219200000), Some (- 62167219200000),
           Some (- 62167219200000), Some (- 62167219200000), Some (- 62167219200000)])"
    by code_simp
  have s1: "setUTCFullYear (Some 12) (Some (- 62167219200000)) = Some (- 61788528000000)"
    by code_simp
  have s2: "setUTCMonth (Some 2) (Some (- 61788528000000)) = Some (- 61783344000000)"
    by code_simp
  have s3: "setUTCDate (Some 1) (Some (- 61783344000000)) = Some (- 61783344000000)"
    by code_simp
  have g2: "getDateAtPrecision [Some 0, Some (- 62167219200000), Some (- 62167219200000),
           Some (- 62167219200000), Some (- 62167219200000),
           Some (- 62167219200000), Some (- 62167219200000), Some (- 61783344000000)] 7 2 =
      (11, [Some 0, Some (- 62167219200000), Some (- 62167219200000),
           Some (- 62167219200000), Some (- 62167219200000),
           Some (- 62167219200000), Some (- 62167219200000),
           Some (- 61783344000000), Some (- 61783344000000),
           Some (- 61783344000000), Some (- 61783344000000),
           Some (- 61783344000000)])"
    by code_simp
  have run: "parseDateStringWithPrecision [] 0 ''12ab-03'' 2 None
       = Inr (11,
          [Some 0, Some (- 62167219200000), Some (- 62167219200000),
           Some (- 62167219200000), Some (- 62167219200000),
           Some (- 62167219200000), Some (- 62167219200000),
           Some (- 61783344000000), Some (- 61783344000000),
           Some (- 61783344000000), Some (- 61783344000000),
           Some (- 61783344000000)])"
    unfolding parseDateStringWithPrecision_def
    by (simp add: Let_def delimiterOf_def sp pi numAt_def new_Date_def TimeClip_def maxTime_def
        g1 valueOf_def s1 s2 s3 g2)
  have f: "getUTCFullYear (Some (- 61783344000000)) = Some 12"
    "getUTCMonth (Some (- 61783344000000)) = Some 2"
    "getUTCDate (Some (- 61783344000000)) = Some 1"
    by code_simp+
  show ?thesis using y n run f by simp
qed

text \<open>
  C5, as the code has it, for the default delimiter. The call raises the
  malformed-date-string error exactly when the year segment of \<open>s\<close> has no integer prefix:
  it does not begin, after white space and one optional sign, with a decimal digit. That
  is the only error, and it is raised with nothing allocated or changed. For every other
  string the call returns a Date object that it has allocated, holding the time value
  that the three setters and the truncation make of the numbers read (a valid time
  value, or an invalid date), and no object that existed before the call is changed. A
  year segment that is a decimal numeral has an integer prefix, so the error is raised
  only for a year segment that is absent or not numeric.
\<close>

theorem parseDateStringWithPrecision_raises_iff:
  "(parseDateStringWithPrecision h now s p None = Inl (MalformedDateString s))
      = (\<not> hasIntegerPrefix (yearSegment s))
   \<and> (\<forall>e. parseDateStringWithPrecision h now s p None = Inl e \<longrightarrow> e = MalformedDateString s)
   \<and> (hasIntegerPrefix (yearSegment s) \<longrightarrow>
        (\<exists>r h'. parseDateStringWithPrecision h now s p None = Inr (r, h')
           \<and> length h \<le> r \<and> r < length h'
           \<and> take (length h) h' = h
           \<and> valueOf h' r = parsedValue s p None
           \<and> valid_timevalue (valueOf h' r)))
   \<and> (decimalNumeral (yearSegment s) \<longrightarrow> hasIntegerPrefix (yearSegment s))"
proof (cases "hasIntegerPrefix (yearSegment s)")
  case True
  then have "getNumber (numAt (map parseInt10 (split
      (if (case s of c # _ \<Rightarrow> c = CHR ''-'' | [] \<Rightarrow> False) then drop 1 s else s)
      (delimiterOf None))) 0) JUndefined \<noteq> JUndefined"
    using year_missing_iff [of s] by (simp add: delimiterOf_def)
  from parse_present [OF this, of h now p]
  obtain r h' where r: "parseDateStringWithPrecision h now s p None = Inr (r, h')"
    "valueOf h' r = parsedValue s p None" "take (length h) h' = h"
    "length h \<le> r" "r < length h'" by blast
  have "valid_timevalue (valueOf h' r)" by (simp add: r(2) parsedValue_valid)
  then show ?thesis using True r by auto
next
  case False
  then have "getNumber (numAt (map parseInt10 (split
      (if (case s of c # _ \<Rightarrow> c = CHR ''-'' | [] \<Rightarrow> False) then drop 1 s else s)
      (delimiterOf None))) 0) JUndefined = JUndefined"
    using year_missing_iff [of s] by (simp add: delimiterOf_def)
  from parse_missing [OF this, of h now p]
  show ?thesis using False decimalNumeral_prefix [of "yearSegment s"] by auto
qed

text \<open>
  C5, two instances: a year segment that does not begin with a digit, and one that is a
  decimal numeral.
\<close>

theorem parseDateStringWithPrecision_raises_iff_witness:
  "parseDateStringWithPrecision [] 0 ''x2021-13-05'' 2 None
      = Inl (MalformedDateString ''x2021-13-05'')
   \<and> hasIntegerPrefix (yearSegment ''x2021-13-05'') = False
   \<and> decimalNumeral (yearSegment ''2021-03'') = True
   \<and> hasIntegerPrefix (yearSegment ''2021-03'') = True
   \<and> (\<exists>r h'. parseDateStringWithPrecision [] 0 ''2021-03'' 2 None = Inr (r, h')
         \<and> r < length h' \<and> valid_timevalue (valueOf h' r))"
proof -
  have a: "\<not> hasIntegerPrefix (yearSegment ''x2021-13-05'')" by code_simp
  have b: "decimalNumeral (yearSegment ''2021-03'')" by code_simp
  note t1 = parseDateStringWithPrecision_raises_iff [of "[]" 0 "''x2021-13-05''" 2]
  note t2 = parseDateStringWithPrecision_raises_iff [of "[]" 0 "''2021-03''" 2]
  have c: "hasIntegerPrefix (yearSegment ''2021-03'')" using t2 b by blast
  have d: "\<exists>r h'. parseDateStringWithPrecision [] 0 ''2021-03'' 2 None = Inr (r, h')
         \<and> r < length h' \<and> valid_timevalue (valueOf h' r)"
    using t2 c by blast
  have e: "parseDateStringWithPrecision [] 0 ''x2021-13-05'' 2 None
      = Inl (MalformedDateString ''x2021-13-05'')"
    using t1 a by blast
  show ?thesis using a b c d e by simp
qed

section \<open>Formatting and parsing: the round trip and the year\<close>

lemma year_start_in_range:
  assumes "- 271820 \<le> YearFromTime t"
  shows "- maxTime \<le> instantAtPrecision 0 t"
proof -
  have z: "zeroBelow 0 (fieldsOf t) =
     \<lparr>fYear = YearFromTime t, fMonth = 0, fDate = 1, fHours = 0, fMinutes = 0, fSeconds = 0,
      fMilliseconds = 0\<rparr>"
    by (simp add: zeroBelow_def fieldsOf_def)
  have i: "instantAtPrecision 0 t = DayFromYear (YearFromTime t) * 86400000"
    unfolding instantAtPrecision_def z
    by (simp add: fromFields_def MakeDate_def MakeDay_def MakeTime_def DaysBeforeMonth_def
        msPerDay_def)
  have "DayFromYear (- 271820) = - 99999744" by (simp add: DayFromYear_def)
  then have "- 99999744 \<le> DayFromYear (YearFromTime t)"
    using DayFromYear_mono [OF assms] by simp
  then show ?thesis unfolding i maxTime_def by simp
qed

lemma year_present:
  assumes "hasIntegerPrefix (yearSegment s)"
  shows "getNumber (numAt (map parseInt10 (split
      (if (case s of c # _ \<Rightarrow> c = CHR ''-'' | [] \<Rightarrow> False) then drop 1 s else s)
      (delimiterOf None))) 0) JUndefined \<noteq> JUndefined"
  using assms year_missing_iff [of s] by (simp add: delimiterOf_def)

lemma earliest_fields:
  "YearFromTime (- 8640000000000000) = - 271821"
  "MonthFromTime (- 8640000000000000) = 3"
  "DateFromTime (- 8640000000000000) = 20"
  by code_simp+

lemma earliest_format:
  "getDateStringAtPrecision [Some (- 8640000000000000)] 0 2 None = ''-271821-04-20''"
proof -
  have v: "valueOf [Some (- 8640000000000000)] 0 = Some (- 8640000000000000)"
    by (simp add: valueOf_def)
  have "digits_of_nat 271821 = map digit_char [2, 7, 1, 8, 2, 1]"
    by (simp add: digits_of_nat.simps)
  moreover have "map digit_char [2, 7, 1, 8, 2, 1] = ''271821''" by code_simp
  ultimately have d0: "digits_of_nat 271821 = ''271821''" by simp
  have d: "digits_of_nat 4 = ''4''" "digits_of_nat 20 = ''20''" by code_simp+
  have n: "nat (2 + 1) = 3" by simp
  show ?thesis
    unfolding format_valid [OF v, of 2, simplified] earliest_fields
    by (simp add: d0 d padStart_def numeral_3_eq_3)
qed

lemma format_by_value:
  "valueOf h d = valueOf h' d' \<Longrightarrow>
   getDateStringAtPrecision h d p opt = getDateStringAtPrecision h' d' p opt"
  by (simp add: getDateStringAtPrecision_def)

lemma length_padStart: "length (padStart n c s) = max n (length s)"
  by (simp add: padStart_def)

text \<open>
  C1. The claim: for the precisions of the year, the month and the day, parsing the
  formatted string of a date gives the truncated date, for every date whose fields down
  to the precision are within the representable range. It fails in the first year of
  the range of time values. The earliest date, -271821-04-20T00:00:00Z, is its own
  truncation to the day and is formatted as \<^verbatim>\<open>-271821-04-20\<close>; the parser first sets the
  year of the cleared date, which would give -271821-01-01, before the earliest time
  value, so the date becomes invalid and stays invalid.
\<close>

theorem roundtrip_earliest_date_counterexample:
  "getDateStringAtPrecision [Some (- 8640000000000000)] 0 2 None = ''-271821-04-20''
   \<and> \<not> isl (parseDateStringWithPrecision [] 0 ''-271821-04-20'' 2 None)
   \<and> valueOf (snd (projr (parseDateStringWithPrecision [] 0 ''-271821-04-20'' 2 None)))
        (fst (projr (parseDateStringWithPrecision [] 0 ''-271821-04-20'' 2 None))) = None
   \<and> valueOf (snd (getDateAtPrecision [Some (- 8640000000000000)] 0 2))
        (fst (getDateAtPrecision [Some (- 8640000000000000)] 0 2))
       = Some (- 8640000000000000)"
proof -
  have v: "valueOf [Some (- 8640000000000000)] 0 = Some (- 8640000000000000)"
    by (simp add: valueOf_def)
  have p: "(0::int) \<le> 2" "(2::int) \<le> 2" by simp_all
  note pa = parsedArguments_format [OF v p, unfolded earliest_format earliest_fields]
  obtain r h' where run: "parseDateStringWithPrecision [] 0 ''-271821-04-20'' 2 None = Inr (r, h')"
    and val: "valueOf h' r = parsedValue ''-271821-04-20'' 2 None"
    using parse_present [OF pa(2), of "[]" 0 2] by blast
  have "truncValue 2 (setUTCDate (Some 20) (setUTCMonth (Some 3)
      (setUTCFullYear (Some (- 271821)) (Some clearedDate)))) = None"
    by code_simp
  then have pv: "parsedValue ''-271821-04-20'' 2 None = None"
    using pa(1) by (simp add: parsedValue_def)
  have tr: "valueOf (snd (getDateAtPrecision [Some (- 8640000000000000)] 0 2))
        (fst (getDateAtPrecision [Some (- 8640000000000000)] 0 2))
       = Some (- 8640000000000000)"
    by code_simp
  show ?thesis using earliest_format run val pv tr by simp
qed

text \<open>
  C1, as the code has it. For a precision of the year, the month or the day and a valid
  date whose year begins within the range of time values (by \<open>year_start_in_range\<close>
  every year from -271820 on), parsing the formatted string at the same precision
  returns a date with the time value of the truncated date, whatever the clock reads.
\<close>

theorem parse_format_roundtrip:
  assumes v: "valueOf h d = Some t" and t: "\<bar>t\<bar> \<le> maxTime" and p: "0 \<le> p" "p \<le> 2"
    and lo: "- maxTime \<le> instantAtPrecision 0 t"
    and tr: "getDateAtPrecision h d p = (r1, h1)"
  shows "\<exists>r h'. parseDateStringWithPrecision h0 now (getDateStringAtPrecision h d p None) p None
        = Inr (r, h')
      \<and> valueOf h' r = valueOf h1 r1
      \<and> valueOf h1 r1 = Some (instantAtPrecision p t)"
proof -
  note pa = parsedArguments_format [OF v p]
  obtain r h' where run: "parseDateStringWithPrecision h0 now
        (getDateStringAtPrecision h d p None) p None = Inr (r, h')"
    and val: "valueOf h' r = parsedValue (getDateStringAtPrecision h d p None) p None"
    using parse_present [OF pa(2), of h0 now p] by blast
  have i: "TimeClip (instantAtPrecision p t) = Some (instantAtPrecision p t)"
    by (rule instant_in_range [OF t p(1) lo])
  have le: "instantAtPrecision p t \<le> maxTime"
    using i by (simp add: TimeClip_def split: if_splits)
  have "parsedValue (getDateStringAtPrecision h d p None) p None
      = truncValue p (Some (instantAtPrecision p t))"
    unfolding parsedValue_def pa(1) by (simp add: parsed_chain [OF t p lo])
  also have "\<dots> = truncValue p (TimeClip (instantAtPrecision p t))" by (simp add: i)
  also have "\<dots> = Some (instantAtPrecision p t)"
    using trunc_nonneg(1) [OF p(1) le] by (simp add: instant_idem i)
  finally have pv: "parsedValue (getDateStringAtPrecision h d p None) p None
      = Some (instantAtPrecision p t)" .
  have "valueOf h1 r1 = truncValue p (Some t)"
    using getDateAtPrecision_heap(1) [OF tr] v by simp
  then have tv: "valueOf h1 r1 = Some (instantAtPrecision p t)"
    using truncValue_valid [OF p(1) t] i by simp
  show ?thesis using run val pv tv by simp
qed

text \<open>C1, an instance: 2021-01-31T00:00:00.123Z at the precision of the month.\<close>

theorem parse_format_roundtrip_witness:
  "getDateStringAtPrecision [Some 1612051200123] 0 1 None = ''2021-01''
   \<and> getDateAtPrecision [Some 1612051200123] 0 1 =
       (5, [Some 1612051200123, Some 1609459200123, Some 1609459200123, Some 1609459200123,
            Some 1609459200123, Some 1609459200000])
   \<and> (\<exists>r h'. parseDateStringWithPrecision [] 0 ''2021-01'' 1 None = Inr (r, h')
         \<and> valueOf h' r = Some 1609459200000)"
proof -
  have f: "getDateStringAtPrecision [Some 1612051200123] 0 1 None = ''2021-01''"
    by code_simp
  have run: "getDateAtPrecision [Some 1612051200123] 0 1 =
       (5, [Some 1612051200123, Some 1609459200123, Some 1609459200123, Some 1609459200123,
            Some 1609459200123, Some 1609459200000])"
    by code_simp
  have lo: "- maxTime \<le> instantAtPrecision 0 1612051200123"
    by code_simp
  have v: "valueOf [Some 1612051200123] 0 = Some 1612051200123" by (simp add: valueOf_def)
  have t: "\<bar>1612051200123\<bar> \<le> maxTime" by (simp add: maxTime_def)
  have p: "(0::int) \<le> 1" "(1::int) \<le> 2" by simp_all
  obtain r h' where a: "parseDateStringWithPrecision [] 0
        (getDateStringAtPrecision [Some 1612051200123] 0 1 None) 1 None = Inr (r, h')"
    and b: "valueOf h' r = valueOf [Some 1612051200123, Some 1609459200123, Some 1609459200123,
        Some 1609459200123, Some 1609459200123, Some 1609459200000] 5"
    using parse_format_roundtrip [OF v t p lo run, of "[]" 0] by blast
  have c: "valueOf h' r = Some 1609459200000" using b by (simp add: valueOf_def)
  have "\<exists>r h'. parseDateStringWithPrecision [] 0 ''2021-01'' 1 None = Inr (r, h')
         \<and> valueOf h' r = Some 1609459200000"
    using a c unfolding f by blast
  then show ?thesis using f run by blast
qed

text \<open>
  C7. For a valid date, the year segment written by \<^verbatim>\<open>getDateStringAtPrecision\<close> is,
  for a year that is not negative, the decimal digits of the year padded with zeros to
  four digits (longer years are not padded), and for a negative year a minus sign
  followed by the digits of the magnitude padded with zeros to six; the string at any
  precision from the year on begins with that segment. In particular the string
  \<^verbatim>\<open>-0099-03-15\<close> parsed and formatted at the precision of the day is
  \<^verbatim>\<open>-000099-03-15\<close>, whatever the clock reads.
\<close>

theorem getDateStringAtPrecision_year:
  assumes v: "valueOf h d = Some t"
  shows "(0 \<le> YearFromTime t \<longrightarrow>
            4 \<le> length (getDateStringAtPrecision h d 0 None)
            \<and> (\<forall>c \<in> set (getDateStringAtPrecision h d 0 None). is_digit c)
            \<and> int (nat_of_digits (getDateStringAtPrecision h d 0 None)) = YearFromTime t
            \<and> length (getDateStringAtPrecision h d 0 None)
                = max 4 (length (digits_of_nat (nat (YearFromTime t)))))
     \<and> (YearFromTime t < 0 \<longrightarrow>
           (\<exists>zs. getDateStringAtPrecision h d 0 None = CHR ''-'' # zs
              \<and> 6 \<le> length zs \<and> (\<forall>c \<in> set zs. is_digit c)
              \<and> int (nat_of_digits zs) = - YearFromTime t
              \<and> length zs = max 6 (length (digits_of_nat (nat (- YearFromTime t))))))
     \<and> (0 \<le> p \<longrightarrow> (\<exists>rest. getDateStringAtPrecision h d p None
                           = getDateStringAtPrecision h d 0 None @ rest))
     \<and> (\<exists>r h'. parseDateStringWithPrecision h0 now ''-0099-03-15'' 2 None = Inr (r, h')
           \<and> getDateStringAtPrecision h' r 2 None = ''-000099-03-15'')"
proof -
  define Y where "Y = YearFromTime t"
  have f0: "getDateStringAtPrecision h d 0 None =
     (if Y < 0 then CHR ''-'' # padStart 6 (CHR ''0'') (digits_of_nat (nat (- Y)))
      else padStart 4 (CHR ''0'') (digits_of_nat (nat Y)))"
    using format_valid [OF v, of 0] by (simp add: Y_def)
  have a: "0 \<le> Y \<longrightarrow>
            4 \<le> length (getDateStringAtPrecision h d 0 None)
            \<and> (\<forall>c \<in> set (getDateStringAtPrecision h d 0 None). is_digit c)
            \<and> int (nat_of_digits (getDateStringAtPrecision h d 0 None)) = Y
            \<and> length (getDateStringAtPrecision h d 0 None)
                = max 4 (length (digits_of_nat (nat Y)))"
    using padded_digits(2,3) [of 4 "nat Y"]
    by (simp add: f0 length_padStart)
  have b: "Y < 0 \<longrightarrow>
           (\<exists>zs. getDateStringAtPrecision h d 0 None = CHR ''-'' # zs
              \<and> 6 \<le> length zs \<and> (\<forall>c \<in> set zs. is_digit c)
              \<and> int (nat_of_digits zs) = - Y
              \<and> length zs = max 6 (length (digits_of_nat (nat (- Y)))))"
    using padded_digits(2,3) [of 6 "nat (- Y)"]
    by (simp add: f0 length_padStart)
  have c: "0 \<le> p \<longrightarrow> (\<exists>rest. getDateStringAtPrecision h d p None
                           = getDateStringAtPrecision h d 0 None @ rest)"
  proof
    assume p: "0 \<le> p"
    have "\<exists>rest. join ''-'' (take (nat (p + 1)) [x, y, z]) = x @ rest" for x y z :: string
    proof -
      have "nat (p + 1) = 1 \<or> nat (p + 1) = 2 \<or> 3 \<le> nat (p + 1)" using p by linarith
      then show ?thesis by (elim disjE) (simp_all add: numeral_2_eq_2)
    qed
    then show "\<exists>rest. getDateStringAtPrecision h d p None
                           = getDateStringAtPrecision h d 0 None @ rest"
      unfolding format_valid [OF v p] format_valid [OF v order_refl] by simp
  qed
  have e: "\<exists>r h'. parseDateStringWithPrecision h0 now ''-0099-03-15'' 2 None = Inr (r, h')
           \<and> getDateStringAtPrecision h' r 2 None = ''-000099-03-15''"
  proof -
    have n: "hasIntegerPrefix (yearSegment ''-0099-03-15'')" by code_simp
    from parse_present [OF year_present [OF n], of h0 now 2]
    obtain r h' where run: "parseDateStringWithPrecision h0 now ''-0099-03-15'' 2 None = Inr (r, h')"
      and val: "valueOf h' r = parsedValue ''-0099-03-15'' 2 None" by blast
    have pv: "parsedValue ''-0099-03-15'' 2 None = Some (- 65285049600000)"
      by code_simp
    have "valueOf h' r = valueOf [Some (- 65285049600000)] 0"
      by (simp only: val pv) (simp add: valueOf_def)
    from format_by_value [OF this]
    have "getDateStringAtPrecision h' r 2 None
        = getDateStringAtPrecision [Some (- 65285049600000)] 0 2 None" .
    also have "\<dots> = ''-000099-03-15''" by code_simp
    finally show ?thesis using run by blast
  qed
  show ?thesis using a b c e unfolding Y_def by blast
qed

text \<open>C7, an instance: a date of the year -99.\<close>

theorem getDateStringAtPrecision_year_witness:
  "getDateStringAtPrecision [Some (- 65285049600000)] 0 0 None = ''-000099''
   \<and> (\<exists>zs. getDateStringAtPrecision [Some (- 65285049600000)] 0 0 None = CHR ''-'' # zs
          \<and> 6 \<le> length zs \<and> int (nat_of_digits zs) = 99)
   \<and> (\<exists>r h'. parseDateStringWithPrecision [] 0 ''-0099-03-15'' 2 None = Inr (r, h')
          \<and> getDateStringAtPrecision h' r 2 None = ''-000099-03-15'')"
proof -
  have v: "valueOf [Some (- 65285049600000)] 0 = Some (- 65285049600000)"
    by (simp add: valueOf_def)
  have y: "YearFromTime (- 65285049600000) = - 99" by code_simp
  have f: "getDateStringAtPrecision [Some (- 65285049600000)] 0 0 None = ''-000099''"
    by code_simp
  note th = getDateStringAtPrecision_year [OF v, of 0 "[]" 0, unfolded y]
  have a: "\<exists>zs. getDateStringAtPrecision [Some (- 65285049600000)] 0 0 None = CHR ''-'' # zs
          \<and> 6 \<le> length zs \<and> int (nat_of_digits zs) = 99"
    using th by auto
  have b: "\<exists>r h'. parseDateStringWithPrecision [] 0 ''-0099-03-15'' 2 None = Inr (r, h')
          \<and> getDateStringAtPrecision h' r 2 None = ''-000099-03-15''"
    using th by blast
  show ?thesis using f a b by blast
qed

section \<open>Filling a template: values that are neither empty nor strings\<close>

text \<open>
  What the code does for a placeholder whose filler is truthy and whose value is neither
  null, undefined nor a string: with a data store the first occurrence of the placeholder
  is replaced by the empty string and the value is written into the store under the name
  of the placeholder; without one it is replaced by the string conversion of the value,
  which \<^verbatim>\<open>replace\<close> reads as a replacement pattern, so it is inserted as it is when it
  has no dollar sign. The example of the specification holds: \<^verbatim>\<open>/q/{filter}\<close> with a
  filler that returns an object and an empty store gives \<^verbatim>\<open>/q/\<close> and the object in the
  store.
\<close>

lemma getSubstitution_no_dollar:
  "CHR ''$'' \<notin> set r \<Longrightarrow> getSubstitution matched pre post r = r"
  by (induction matched pre post r rule: getSubstitution.induct) auto

lemma replace_no_dollar:
  assumes "CHR ''$'' \<notin> set r"
  shows "replace str pat r =
     (case findFirst pat [] str of None \<Rightarrow> str | Some (pre, post) \<Rightarrow> pre @ r @ post)"
  by (simp add: replace_def getSubstitution_no_dollar [OF assms] split: option.splits)

lemma findFirst_sound:
  "findFirst pat acc str = Some (pre, post) \<Longrightarrow> rev acc @ str = pre @ pat @ post"
proof (induction str arbitrary: acc)
  case Nil
  then show ?case by (simp split: if_splits)
next
  case (Cons c cs)
  show ?case
  proof (cases "take (length pat) (c # cs) = pat")
    case True
    then have "pre = rev acc" "post = drop (length pat) (c # cs)" using Cons.prems by simp_all
    then show ?thesis using True by (metis append_take_drop_id)
  next
    case False
    then have "findFirst pat (c # acc) cs = Some (pre, post)" using Cons.prems by simp
    from Cons.IH [OF this] show ?thesis by simp
  qed
qed

lemma fillTemplateStringSegment_other_value:
  assumes m: "firstPlaceholder matched = Some name"
    and f: "fillers name = Some f" "truthy_filler f"
    and v: "resolve f \<noteq> JNull" "resolve f \<noteq> JUndefined" "\<forall>s. resolve f \<noteq> JStr s"
  shows "fillTemplateStringSegment templ matched fillers (Some store)
      = (replace templ matched [], Some (store(name \<mapsto> resolve f)))"
    and "fillTemplateStringSegment templ matched fillers None
      = (replace templ matched (String_conv (resolve f)), None)"
  using v by (cases "resolve f"; simp add: fillTemplateStringSegment_def m f)+

lemma fillTemplateString_side_store:
  "fst (fillTemplateString ''/q/{filter}''
     [''filter'' \<mapsto> Producer (JObj [(''a'', JNum (Finite 1))])] (Some Map.empty)) = ''/q/''"
  "the (snd (fillTemplateString ''/q/{filter}''
     [''filter'' \<mapsto> Producer (JObj [(''a'', JNum (Finite 1))])] (Some Map.empty))) ''filter''
     = Some (JObj [(''a'', JNum (Finite 1))])"
  by code_simp+

text \<open>
  A conversion with a dollar pattern is expanded by \<^verbatim>\<open>replace\<close>: the array with the one
  string \<^verbatim>\<open>$&\<close> converts to \<^verbatim>\<open>$&\<close>, which stands for the matched text, and the placeholder
  stays.
\<close>

lemma fillTemplateString_dollar_pattern:
  "String_conv (JArr [JStr [CHR ''$'', CHR ''&'']]) = [CHR ''$'', CHR ''&'']"
  "fst (fillTemplateString ''/q/{n}'' [''n'' \<mapsto> Literal (JArr [JStr [CHR ''$'', CHR ''&'']])] None)
     = ''/q/{n}''"
  by code_simp+

text \<open>
  C6. The claim: every matched placeholder whose resolved value is neither
  null/undefined nor a string is replaced by the empty string with the value written to
  the data store, or, without a data store, by the string conversion of the value. The
  code tests the filler itself for truthiness before it resolves it, to find a missing
  filler; a literal filler that is falsy, as the number 0 or \<^verbatim>\<open>false\<close>, is taken for a
  missing one. Without a store, \<^verbatim>\<open>/q/{n}\<close> with the literal 0 for \<^verbatim>\<open>n\<close> becomes \<^verbatim>\<open>/q/\<close>
  and not \<^verbatim>\<open>/q/0\<close>; with a store and the literal \<^verbatim>\<open>false\<close>, nothing is written to the
  store. A function that returns 0 is treated as the claim says.
\<close>

theorem fillTemplateString_falsy_literal:
  "fst (fillTemplateString ''/q/{n}'' [''n'' \<mapsto> Literal (JNum (Finite 0))] None) = ''/q/''
   \<and> String_conv (JNum (Finite 0)) = ''0''
   \<and> fst (fillTemplateString ''/q/{n}'' [''n'' \<mapsto> Literal (JBool False)] (Some Map.empty))
       = ''/q/''
   \<and> the (snd (fillTemplateString ''/q/{n}'' [''n'' \<mapsto> Literal (JBool False)]
        (Some Map.empty))) ''n'' = None
   \<and> fst (fillTemplateString ''/q/{n}'' [''n'' \<mapsto> Producer (JNum (Finite 0))] None) = ''/q/0''"
  by code_simp

end
